theory Spec2Isabelle
  imports Complex_Main "HOL-Library.Word" "HOL-Library.Multiset" "HOL-Library.Monad_Syntax"
begin

section \<open>SpreaderDetectorBackend: data model\<close>

text \<open>
  The program is C. The integer types are those of an LP64 platform: \<open>unsigned long\<close> and
  \<open>long\<close> have 64 bits, \<open>int\<close> has 32 bits. Array indices and lengths, which the program
  keeps in \<open>int\<close> variables, are natural numbers where they cannot be negative and
  mathematical integers in the binary search, whose bounds reach \<open>-1\<close>.
\<close>

subsection \<open>The values of the C type float\<close>

text \<open>
  A \<open>float\<close> is an IEEE 754 binary32 value: a finite number, a negative zero, an infinity
  or a NaN. \<open>Finite 0\<close> is the positive zero. Every arithmetic operation computes the exact
  result and rounds it to the nearest binary32 value, ties to the even significand, which
  is the rounding mode a C program starts with; the model takes each operation of the
  code to be rounded to \<open>float\<close> on its own (\<open>FLT_EVAL_METHOD\<close> 0, as on x86-64 and
  AArch64). A result too large for the format becomes an infinity, a result too small
  becomes a subnormal number or a zero.
\<close>

datatype cfloat = Finite real | NegZero | PosInf | NegInf | NaN

fun val :: "cfloat \<Rightarrow> real" where
  "val (Finite r) = r"
| "val NegZero = 0"
| "val PosInf = 0"
| "val NegInf = 0"
| "val NaN = 0"

fun signbit :: "cfloat \<Rightarrow> bool" where
  "signbit (Finite r) = (r < 0)"
| "signbit NegZero = True"
| "signbit PosInf = False"
| "signbit NegInf = True"
| "signbit NaN = False"

definition isZero :: "cfloat \<Rightarrow> bool" where
  "isZero x = (x = Finite 0 \<or> x = NegZero)"

definition isInf :: "cfloat \<Rightarrow> bool" where
  "isInf x = (x = PosInf \<or> x = NegInf)"

definition signedInf :: "bool \<Rightarrow> cfloat" where
  "signedInf s = (if s then NegInf else PosInf)"

definition signedZero :: "bool \<Rightarrow> cfloat" where
  "signedZero s = (if s then NegZero else Finite 0)"

text \<open>
  The binary32 values are the multiples \<open>m * q\<close> of a power of two \<open>q\<close> with
  \<open>m < 2 ^ 24\<close>, where \<open>q\<close> runs from \<open>2 ^ -149\<close> to \<open>2 ^ 104\<close>. \<open>quantum a q n\<close> doubles
  \<open>q\<close>, at most \<open>n\<close> times, until \<open>a\<close> is below \<open>2 ^ 24 * q\<close>: started at \<open>2 ^ -149\<close>, the
  smallest subnormal number, with 253 steps it gives the distance of the binary32 values
  around \<open>a\<close>.
\<close>

fun quantum :: "real \<Rightarrow> real \<Rightarrow> nat \<Rightarrow> real" where
  "quantum a q 0 = q"
| "quantum a q (Suc n) = (if a < 2 ^ 24 * q then q else quantum a (2 * q) n)"

text \<open>The integer nearest to \<open>x\<close>, the even one of the two when \<open>x\<close> lies in the middle.\<close>

definition round_even :: "real \<Rightarrow> int" where
  "round_even x =
     (let f = \<lfloor>x\<rfloor>; d = x - of_int f
      in if d < 1 / 2 then f else if 1 / 2 < d then f + 1 else if even f then f else f + 1)"

text \<open>A magnitude \<open>a \<ge> 0\<close> rounded to a multiple of its quantum.\<close>

definition minSubnormal :: real where
  "minSubnormal = 1 / 2 ^ 149"

definition roundMag :: "real \<Rightarrow> real" where
  "roundMag a = (let q = quantum a minSubnormal 253 in of_int (round_even (a / q)) * q)"

text \<open>
  The exact result \<open>r\<close> of an operation as a \<open>float\<close>. \<open>s\<close> is the sign of the zero when
  \<open>r\<close> is 0; a result that is rounded to zero keeps its own sign. A magnitude that rounds
  to \<open>2 ^ 128\<close> overflows.
\<close>

definition round32 :: "bool \<Rightarrow> real \<Rightarrow> cfloat" where
  "round32 s r =
     (if r = 0 then signedZero s
      else let v = roundMag \<bar>r\<bar>
           in if 2 ^ 128 \<le> v then signedInf (r < 0)
              else if v = 0 then signedZero (r < 0)
              else Finite (if r < 0 then - v else v))"

text \<open>The values of the model that a \<open>float\<close> variable can hold.\<close>

definition isFloat32 :: "cfloat \<Rightarrow> bool" where
  "isFloat32 x = (case x of Finite r \<Rightarrow> round32 False r = Finite r | _ \<Rightarrow> True)"

text \<open>\<open>x * y\<close>\<close>

definition fmul :: "cfloat \<Rightarrow> cfloat \<Rightarrow> cfloat" where
  "fmul x y =
     (if x = NaN \<or> y = NaN then NaN
      else if (isInf x \<and> isZero y) \<or> (isZero x \<and> isInf y) then NaN
      else if isInf x \<or> isInf y then signedInf (signbit x \<noteq> signbit y)
      else round32 (signbit x \<noteq> signbit y) (val x * val y))"

text \<open>\<open>x / y\<close>: a division by zero gives an infinity, or NaN for \<open>0 / 0\<close>; it does not trap.\<close>

definition fdiv :: "cfloat \<Rightarrow> cfloat \<Rightarrow> cfloat" where
  "fdiv x y =
     (if x = NaN \<or> y = NaN then NaN
      else if (isInf x \<and> isInf y) \<or> (isZero x \<and> isZero y) then NaN
      else if isInf x \<or> isZero y then signedInf (signbit x \<noteq> signbit y)
      else if isInf y then signedZero (signbit x \<noteq> signbit y)
      else round32 (signbit x \<noteq> signbit y) (val x / val y))"

text \<open>\<open>x - y\<close>\<close>

definition fsub :: "cfloat \<Rightarrow> cfloat \<Rightarrow> cfloat" where
  "fsub x y =
     (if x = NaN \<or> y = NaN then NaN
      else if isInf x \<and> x = y then NaN
      else if isInf x then x
      else if isInf y then signedInf (\<not> signbit y)
      else round32 (x = NegZero \<and> y = Finite 0) (val x - val y))"

text \<open>\<open>fabsf(x)\<close>\<close>

fun fabsf :: "cfloat \<Rightarrow> cfloat" where
  "fabsf (Finite r) = Finite \<bar>r\<bar>"
| "fabsf NegZero = Finite 0"
| "fabsf PosInf = PosInf"
| "fabsf NegInf = PosInf"
| "fabsf NaN = NaN"

text \<open>\<open>x < y\<close>, \<open>x > y\<close> and \<open>x >= y\<close>: every comparison with a NaN is false.\<close>

fun fless :: "cfloat \<Rightarrow> cfloat \<Rightarrow> bool" where
  "fless NaN y = False"
| "fless x NaN = False"
| "fless PosInf y = False"
| "fless x PosInf = True"
| "fless x NegInf = False"
| "fless NegInf y = True"
| "fless x y = (val x < val y)"

definition fgreater :: "cfloat \<Rightarrow> cfloat \<Rightarrow> bool" where
  "fgreater x y = fless y x"

definition fgeq :: "cfloat \<Rightarrow> cfloat \<Rightarrow> bool" where
  "fgeq x y = (x \<noteq> NaN \<and> y \<noteq> NaN \<and> \<not> fless x y)"

subsection \<open>Constants of SpreaderDetectorParams.h and SpreaderDetectorBackend.c\<close>

text \<open>
  A constant with the suffix \<open>f\<close> is the decimal number rounded to \<open>float\<close>. \<open>EPSILON\<close> has
  no suffix: it is a \<open>double\<close>, the binary64 value nearest to \<open>0.000000001\<close>, which is
  \<open>4835703278458517 / 2 ^ 82\<close>. The code compares a \<open>float\<close> with it; the conversion of
  the \<open>float\<close> to \<open>double\<close> changes no value, so the comparison is that of the two
  numbers.
\<close>

definition MIN_DISTANCE :: cfloat where
  "MIN_DISTANCE = Finite 1"

definition MAX_TIME :: cfloat where
  "MAX_TIME = Finite 30"

definition REGULAR_QUARANTINE_THRESHOLD :: cfloat where
  "REGULAR_QUARANTINE_THRESHOLD = round32 False (1 / 10)"

definition MEDICAL_SUPERVISION_THRESHOLD :: cfloat where
  "MEDICAL_SUPERVISION_THRESHOLD = round32 False (3 / 10)"

definition EPSILON :: cfloat where
  "EPSILON = Finite (4835703278458517 / 2 ^ 82)"

definition REGULAR_QUARANTINE_MSG :: string where
  "REGULAR_QUARANTINE_MSG = ''14-days-Quarantine Required: %s %lu.\<newline>''"

definition MEDICAL_SUPERVISION_THRESHOLD_MSG :: string where
  "MEDICAL_SUPERVISION_THRESHOLD_MSG = ''Hospitalization Required: %s %lu.\<newline>''"

definition CLEAN_MSG :: string where
  "CLEAN_MSG = ''No serious chance for infection: %s %lu.\<newline>''"

definition EQUAL :: int where
  "EQUAL = 0"

definition GREATER :: int where
  "GREATER = 1"

definition SMALLER :: int where
  "SMALLER = - 1"

subsection \<open>Person\<close>

record Person =
  name :: string
  id_field :: "64 word"
  age :: cfloat
  probability :: cfloat

type_synonym compFunc = "Person \<Rightarrow> Person \<Rightarrow> int"

section \<open>The comparators\<close>

text \<open>
  \<open>idCompare\<close> returns \<open>id1 - id2\<close>: the difference of two \<open>unsigned long\<close>, which wraps
  modulo \<open>2 ^ 64\<close>, converted to the return type \<open>int\<close>. C leaves the conversion of a value
  that does not fit to the implementation; gcc and clang keep the low 32 bits as a two's
  complement number, and so does the model.
\<close>

definition idCompare :: compFunc where
  "idCompare a b =
     (let id1 = id_field a; id2 = id_field b
      in sint (ucast (id1 - id2) :: 32 word))"

definition probCompare :: compFunc where
  "probCompare a b =
     (let id1 = probability a; id2 = probability b
      in if fless (fabsf (fsub id1 id2)) EPSILON then EQUAL
         else if fgreater id1 id2 then GREATER
         else SMALLER)"

section \<open>The ordering engine\<close>

text \<open>
  Arrays are lists, and a pointer into an array is the array from that element on:
  \<open>&draftList[aLen]\<close> is \<open>drop aLen draftList\<close> where it is only read. \<open>mergeSort\<close> also
  writes through its \<open>draftList\<close> pointer, so there the buffer is passed whole, with the
  offset \<open>dOff\<close> of the pointer in it, and returned with the array. The theorems cover the
  calls whose accesses stay inside both arrays; an access outside is undefined in C. The
  parameter \<open>comp\<close> of the code is written \<open>cmp\<close>.
\<close>

text \<open>The \<open>while\<close> loop of \<open>merge\<close>; it returns the array and the two counters.\<close>

function mergeLoop ::
  "Person list \<Rightarrow> Person list \<Rightarrow> nat \<Rightarrow> Person list \<Rightarrow> nat \<Rightarrow> nat \<Rightarrow> compFunc \<Rightarrow> nat \<Rightarrow> nat
     \<Rightarrow> Person list \<times> nat \<times> nat" where
  "mergeLoop peopleList a aLen b bLen start cmp aI bI =
     (if aI < aLen \<and> bI < bLen then
        if cmp (a ! aI) (b ! bI) < 0
        then mergeLoop (peopleList[start + aI + bI := a ! aI]) a aLen b bLen start cmp (aI + 1) bI
        else mergeLoop (peopleList[start + aI + bI := b ! bI]) a aLen b bLen start cmp aI (bI + 1)
      else (peopleList, aI, bI))"
  by pat_completeness auto
termination
  by (relation "measure (\<lambda>(peopleList, a, aLen, b, bLen, start, cmp, aI, bI).
        (aLen - aI) + (bLen - bI))") auto

declare mergeLoop.simps [simp del]

text \<open>\<open>for (int i = aI; i < aLen; i++) peopleList[start + i + bI] = a[i];\<close>\<close>

function copyRestA :: "Person list \<Rightarrow> Person list \<Rightarrow> nat \<Rightarrow> nat \<Rightarrow> nat \<Rightarrow> nat \<Rightarrow> Person list" where
  "copyRestA peopleList a aLen start bI i =
     (if i < aLen then copyRestA (peopleList[start + i + bI := a ! i]) a aLen start bI (i + 1)
      else peopleList)"
  by pat_completeness auto
termination
  by (relation "measure (\<lambda>(peopleList, a, aLen, start, bI, i). aLen - i)") auto

declare copyRestA.simps [simp del]

text \<open>\<open>for (int j = bI; j < bLen; j++) peopleList[start + aI + j] = b[j];\<close>\<close>

function copyRestB :: "Person list \<Rightarrow> Person list \<Rightarrow> nat \<Rightarrow> nat \<Rightarrow> nat \<Rightarrow> nat \<Rightarrow> Person list" where
  "copyRestB peopleList b bLen start aI j =
     (if j < bLen then copyRestB (peopleList[start + aI + j := b ! j]) b bLen start aI (j + 1)
      else peopleList)"
  by pat_completeness auto
termination
  by (relation "measure (\<lambda>(peopleList, b, bLen, start, aI, j). bLen - j)") auto

declare copyRestB.simps [simp del]

definition merge ::
  "Person list \<Rightarrow> Person list \<Rightarrow> nat \<Rightarrow> Person list \<Rightarrow> nat \<Rightarrow> nat \<Rightarrow> compFunc \<Rightarrow> Person list" where
  "merge peopleList a aLen b bLen start cmp =
     (case mergeLoop peopleList a aLen b bLen start cmp 0 0 of
        (peopleList', aI, bI) \<Rightarrow>
          if aI < aLen then copyRestA peopleList' a aLen start bI aI
          else copyRestB peopleList' b bLen start aI bI)"

text \<open>\<open>for (int i = 0; i < length; i++) draftList[i] = peopleList[i + start];\<close>\<close>

function copyToDraft :: "Person list \<Rightarrow> Person list \<Rightarrow> nat \<Rightarrow> nat \<Rightarrow> nat \<Rightarrow> nat \<Rightarrow> Person list" where
  "copyToDraft peopleList draftList dOff len start i =
     (if i < len
      then copyToDraft peopleList (draftList[dOff + i := peopleList ! (i + start)]) dOff len start (i + 1)
      else draftList)"
  by pat_completeness auto
termination
  by (relation "measure (\<lambda>(peopleList, draftList, dOff, len, start, i). len - i)") auto

declare copyToDraft.simps [simp del]

function mergeSort ::
  "Person list \<Rightarrow> Person list \<Rightarrow> nat \<Rightarrow> nat \<Rightarrow> nat \<Rightarrow> compFunc \<Rightarrow> Person list \<times> Person list" where
  "mergeSort peopleList draftList dOff len start cmp =
     (if len < 1 then (peopleList, draftList)
      else
        let aLen = len div 2;
            bLen = (if aLen = 0 then 0 else len - aLen)
        in case mergeSort peopleList draftList dOff aLen start cmp of
             (peopleList1, draftList1) \<Rightarrow>
        case mergeSort peopleList1 draftList1 (dOff + aLen) bLen (aLen + start) cmp of
             (peopleList2, draftList2) \<Rightarrow>
        let draftList3 = copyToDraft peopleList2 draftList2 dOff len start 0
        in (merge peopleList2 (drop dOff draftList3) aLen (drop (dOff + aLen) draftList3) bLen
              start cmp,
            draftList3))"
  by pat_completeness auto
termination
  by (relation "measure (\<lambda>(peopleList, draftList, dOff, len, start, cmp). len)") auto

declare mergeSort.simps [simp del]

text \<open>
  \<open>sortById\<close> and \<open>sortByProbability\<close> allocate the draft with \<open>calloc\<close>, which fills it with
  zero bytes, and sort the whole array. The run in which \<open>calloc\<close> fails (the program
  exits) is not part of the model.
\<close>

definition zeroPerson :: Person where
  "zeroPerson = \<lparr>name = [], id_field = 0, age = Finite 0, probability = Finite 0\<rparr>"

definition sortById :: "Person list \<Rightarrow> Person list" where
  "sortById peopleList =
     (let peopleListSize = length peopleList;
          draft = replicate peopleListSize zeroPerson
      in fst (mergeSort peopleList draft 0 peopleListSize 0 idCompare))"

definition sortByProbability :: "Person list \<Rightarrow> Person list" where
  "sortByProbability peopleList =
     (let peopleListSize = length peopleList;
          draft = replicate peopleListSize zeroPerson
      in fst (mergeSort peopleList draft 0 peopleListSize 0 probCompare))"

section \<open>The C library functions the parsers call\<close>

text \<open>
  \<open>strtok(s, " ")\<close> on a line, and \<open>strtok(NULL, " ")\<close> on what the previous call left:
  the separators in front are skipped; when nothing is left the result is \<open>NULL\<close>
  (\<open>None\<close>); otherwise the token runs to the next separator, and the text behind that
  separator is left for the next call.
\<close>

definition SEPARATOR :: char where
  "SEPARATOR = CHR '' ''"

definition strtok :: "string \<Rightarrow> (string \<times> string) option" where
  "strtok s =
     (let t = dropWhile (\<lambda>c. c = SEPARATOR) s
      in if t = [] then None
         else Some (takeWhile (\<lambda>c. c \<noteq> SEPARATOR) t,
                    drop 1 (dropWhile (\<lambda>c. c \<noteq> SEPARATOR) t)))"

definition isspace :: "char \<Rightarrow> bool" where
  "isspace c = (c = CHR '' '' \<or> (9 :: nat) \<le> of_char c \<and> of_char c \<le> (13 :: nat))"

definition isdigit :: "char \<Rightarrow> bool" where
  "isdigit c = ((48 :: nat) \<le> of_char c \<and> of_char c \<le> (57 :: nat))"

definition LONG_MAX :: int where
  "LONG_MAX = 2 ^ 63 - 1"

definition LONG_MIN :: int where
  "LONG_MIN = - (2 ^ 63)"

text \<open>The digits \<open>strtol\<close> converts: after white space and an optional sign.\<close>

definition afterSign :: "string \<Rightarrow> string" where
  "afterSign s =
     (case dropWhile isspace s of
        [] \<Rightarrow> []
      | c # r \<Rightarrow> if c = CHR ''-'' \<or> c = CHR ''+'' then r else c # r)"

definition isNegative :: "string \<Rightarrow> bool" where
  "isNegative s = (case dropWhile isspace s of [] \<Rightarrow> False | c # r \<Rightarrow> c = CHR ''-'')"

definition decimalValue :: "string \<Rightarrow> int" where
  "decimalValue ds = foldl (\<lambda>acc c. 10 * acc + (int (of_char c) - 48)) 0 ds"

text \<open>
  \<open>strtol(s, NULL, 10)\<close>: the value of the digits, 0 when there is none, and the nearest
  bound when the value does not fit a \<open>long\<close>. No error is reported to a caller that
  passes \<open>NULL\<close> as the end pointer and does not read \<open>errno\<close>.
\<close>

definition strtol :: "string \<Rightarrow> int" where
  "strtol s =
     (let n = decimalValue (takeWhile isdigit (afterSign s));
          v = (if isNegative s then - n else n)
      in if LONG_MAX < v then LONG_MAX else if v < LONG_MIN then LONG_MIN else v)"

text \<open>
  \<open>strtof\<close> is a parameter of the functions that call it. Where a theorem needs a
  concrete line, \<open>strtof_decimal\<close> stands for it: it reads white space, an optional sign,
  digits and an optional fraction, rounds the number to \<open>float\<close>, and gives 0 when there
  is no number. On text of that form (no exponent, no hexadecimal digits, no \<open>inf\<close> or
  \<open>nan\<close>) it gives what \<open>strtof\<close> gives.
\<close>

definition fractionDigits :: "string \<Rightarrow> string" where
  "fractionDigits s =
     (case dropWhile isdigit (afterSign s) of
        [] \<Rightarrow> []
      | c # r \<Rightarrow> if c = CHR ''.'' then takeWhile isdigit r else [])"

definition strtof_decimal :: "string \<Rightarrow> cfloat" where
  "strtof_decimal s =
     (let ip = takeWhile isdigit (afterSign s);
          fp = fractionDigits s;
          v = real_of_int (decimalValue ip) + real_of_int (decimalValue fp) / 10 ^ length fp
      in if ip = [] \<and> fp = [] then Finite 0
         else round32 (isNegative s) (if isNegative s then - v else v))"

section \<open>Ingestion\<close>

text \<open>
  \<open>fillPerson\<close> returns \<open>FAILURE\<close> or \<open>SUCCESS\<close>, and fills the person on \<open>SUCCESS\<close>. When
  \<open>strtok\<close> finds no token its \<open>NULL\<close> goes to \<open>strlen\<close>, \<open>strtol\<close> or \<open>strtof\<close>, which is
  undefined: \<open>NullPointer\<close>. Whether \<open>calloc\<close> gives memory for the name is the
  parameter \<open>calloc_ok\<close>, asked with the number of bytes.
\<close>

datatype fillResult = FAILURE | SUCCESS Person | NullPointer

definition fillPerson :: "(nat \<Rightarrow> bool) \<Rightarrow> (string \<Rightarrow> cfloat) \<Rightarrow> string \<Rightarrow> fillResult" where
  "fillPerson calloc_ok strtof line =
     (case strtok line of
        None \<Rightarrow> NullPointer
      | Some (temp, rest1) \<Rightarrow>
          if \<not> calloc_ok (length temp + 1) then FAILURE
          else case strtok rest1 of
                 None \<Rightarrow> NullPointer
               | Some (idToken, rest2) \<Rightarrow>
                   case strtok rest2 of
                     None \<Rightarrow> NullPointer
                   | Some (ageToken, rest3) \<Rightarrow>
                       SUCCESS \<lparr>name = temp,
                                id_field = word_of_int (strtol idToken),
                                age = strtof ageToken,
                                probability = Finite 0\<rparr>)"

text \<open>
  What the C library answers to \<open>readPeopleFile\<close>: whether the \<open>calloc\<close> of the array gives
  memory, whether the \<open>calloc\<close> of the name of the person with a given index gives memory
  for a given number of bytes, whether \<open>realloc\<close> gives memory for a given number of bytes,
  and whether \<open>fclose\<close> succeeds.
\<close>

record environment =
  arrayCalloc :: bool
  nameCalloc :: "nat \<Rightarrow> nat \<Rightarrow> bool"
  arrayRealloc :: "nat \<Rightarrow> bool"
  fileClose :: bool

definition ALLOC_SIZE :: nat where
  "ALLOC_SIZE = 2"

definition INT_MAX :: nat where
  "INT_MAX = 2 ^ 31 - 1"

text \<open>
  \<open>sizeof(Person)\<close> where pointers and \<open>unsigned long\<close> have 8 bytes and \<open>float\<close> has 4:
  a pointer, an \<open>unsigned long\<close> and two \<open>float\<close>s.
\<close>

definition sizeofPerson :: nat where
  "sizeofPerson = 24"

datatype 'a run = ExitFailure | Undefined | Returns 'a

text \<open>
  \<open>allocateMore\<close>: when \<open>realloc\<close> gives no memory it frees everything and calls
  \<open>exit(EXIT_FAILURE)\<close>.
\<close>

definition allocateMore :: "environment \<Rightarrow> nat \<Rightarrow> unit run" where
  "allocateMore env capacity =
     (if arrayRealloc env (sizeofPerson * capacity) then Returns () else ExitFailure)"

text \<open>
  The \<open>while\<close> loop of \<open>readPeopleFile\<close> over the lines \<open>fgets\<close> delivers. The list is the
  filled part of the array and its length is \<open>personsCounter\<close>. On \<open>FAILURE\<close> the program
  frees everything and calls \<open>exit(EXIT_FAILURE)\<close>. The person is stored at index
  \<open>personsCounter\<close>, which is undefined when the array has no room for it. When the
  array is full after that, \<open>capacity *= ALLOC_SIZE\<close> doubles an \<open>int\<close>, which is undefined
  when the product does not fit, and \<open>allocateMore\<close> is called.
\<close>

fun readPeopleLoop ::
  "environment \<Rightarrow> (string \<Rightarrow> cfloat) \<Rightarrow> string list \<Rightarrow> Person list \<Rightarrow> nat \<Rightarrow> Person list run" where
  "readPeopleLoop env strtof [] peopleList capacity = Returns peopleList"
| "readPeopleLoop env strtof (line # rest) peopleList capacity =
     (case fillPerson (nameCalloc env (length peopleList)) strtof line of
        FAILURE \<Rightarrow> ExitFailure
      | NullPointer \<Rightarrow> Undefined
      | SUCCESS person \<Rightarrow>
          if capacity \<le> length peopleList then Undefined
          else if length peopleList + 1 = capacity
          then (if INT_MAX < capacity * ALLOC_SIZE then Undefined
                else case allocateMore env (capacity * ALLOC_SIZE) of
                       ExitFailure \<Rightarrow> ExitFailure
                     | Undefined \<Rightarrow> Undefined
                     | Returns u \<Rightarrow>
                         readPeopleLoop env strtof rest (peopleList @ [person])
                           (capacity * ALLOC_SIZE))
          else readPeopleLoop env strtof rest (peopleList @ [person]) capacity)"

text \<open>
  \<open>readPeopleFile\<close>: the array of \<open>ALLOC_SIZE\<close> persons is allocated, the loop runs, the
  file is closed. A \<open>calloc\<close> that gives no memory and an \<open>fclose\<close> that fails end the
  program with \<open>exit(EXIT_FAILURE)\<close>. The value returned is the array; \<open>personsCounter\<close>
  is its length.
\<close>

definition readPeopleFile ::
  "environment \<Rightarrow> (string \<Rightarrow> cfloat) \<Rightarrow> string list \<Rightarrow> Person list run" where
  "readPeopleFile env strtof lines =
     (if \<not> arrayCalloc env then ExitFailure
      else case readPeopleLoop env strtof lines [] ALLOC_SIZE of
             ExitFailure \<Rightarrow> ExitFailure
           | Undefined \<Rightarrow> Undefined
           | Returns peopleList \<Rightarrow> if fileClose env then Returns peopleList else ExitFailure)"

section \<open>The lookup engine\<close>

text \<open>
  \<open>(end - start) / 2\<close> in C rounds towards zero. The search has no base case for an
  empty range: it reads \<open>peopleList[mid]\<close> whatever the bounds are, and recurses until
  it finds the identifier. \<open>None\<close> is a call that gives no value: it reads outside the
  array or never returns. The list holds the \<open>peopleListSize\<close> elements of the array.
\<close>

definition c_div2 :: "int \<Rightarrow> int" where
  "c_div2 k = (if 0 \<le> k then k div 2 else - ((- k) div 2))"

partial_function (option) binarySearchById ::
  "Person list \<Rightarrow> 64 word \<Rightarrow> int \<Rightarrow> int \<Rightarrow> int option" where
  "binarySearchById peopleList idToFind start endI =
     (let mid = start + c_div2 (endI - start)
      in if mid < 0 \<or> int (length peopleList) \<le> mid then None
         else if id_field (peopleList ! nat mid) = idToFind then Some mid
         else if idToFind < id_field (peopleList ! nat mid)
              then binarySearchById peopleList idToFind start (mid - 1)
              else binarySearchById peopleList idToFind (mid + 1) endI)"

declare binarySearchById.simps [code]

section \<open>The propagation engine\<close>

definition crna :: "cfloat \<Rightarrow> cfloat \<Rightarrow> cfloat" where
  "crna dist' time =
     (let numerator = fmul time MIN_DISTANCE;
          denominator = fmul dist' MAX_TIME
      in fdiv numerator denominator)"

text \<open>
  \<open>probUpdater\<close>, in the order of its statements. \<open>None\<close> is a run that is undefined: a
  missing field (a null pointer goes to \<open>strtol\<close> or \<open>strtof\<close>) or a search that gives no
  index.
\<close>

definition probUpdater ::
  "(string \<Rightarrow> cfloat) \<Rightarrow> Person list \<Rightarrow> string \<Rightarrow> Person list option" where
  "probUpdater strtof peopleList line =
     do {
       (tok1, rest1) \<leftarrow> strtok line;
       let infectorId = (word_of_int (strtol tok1) :: 64 word);
       (tok2, rest2) \<leftarrow> strtok rest1;
       let infectedId = (word_of_int (strtol tok2) :: 64 word);
       infectorIdx \<leftarrow> binarySearchById peopleList infectorId 0 (int (length peopleList) - 1);
       infectedIdx \<leftarrow> binarySearchById peopleList infectedId 0 (int (length peopleList) - 1);
       (tok3, rest3) \<leftarrow> strtok rest2;
       let distance = strtof tok3;
       (tok4, rest4) \<leftarrow> strtok rest3;
       let time = strtof tok4;
       let prob = crna distance time;
       Some (peopleList[nat infectedIdx :=
               (peopleList ! nat infectedIdx)
                 \<lparr>probability := fmul (probability (peopleList ! nat infectorIdx)) prob\<rparr>])
     }"

text \<open>The \<open>while\<close> loop of \<open>readMeetingsFile\<close> over the lines after the first.\<close>

fun meetingsLoop ::
  "(string \<Rightarrow> cfloat) \<Rightarrow> string list \<Rightarrow> Person list \<Rightarrow> Person list option" where
  "meetingsLoop strtof [] peopleList = Some peopleList"
| "meetingsLoop strtof (line # rest) peopleList =
     (case probUpdater strtof peopleList line of
        None \<Rightarrow> None
      | Some peopleList' \<Rightarrow> meetingsLoop strtof rest peopleList')"

text \<open>
  \<open>readMeetingsFile\<close> on the lines of the file: an empty file changes nothing. The
  result of \<open>fclose\<close> is left out.
\<close>

definition readMeetingsFile ::
  "(string \<Rightarrow> cfloat) \<Rightarrow> string list \<Rightarrow> Person list \<Rightarrow> Person list option" where
  "readMeetingsFile strtof lines peopleList =
     (case lines of
        [] \<Rightarrow> Some peopleList
      | line # rest \<Rightarrow>
          do {
            let sickId = (word_of_int (strtol line) :: 64 word);
            sickPersonIndex \<leftarrow> binarySearchById peopleList sickId 0 (int (length peopleList) - 1);
            meetingsLoop strtof rest
              (peopleList[nat sickPersonIndex :=
                 (peopleList ! nat sickPersonIndex)\<lparr>probability := Finite 1\<rparr>])
          })"

section \<open>The reporter\<close>

text \<open>
  A line of the output file is the \<open>fprintf\<close> call that writes it: the format and its two
  arguments. The result of the \<open>fclose\<close> that ends \<open>writeOutput\<close> is left out.
\<close>

datatype fprintfCall = Fprintf string string "64 word"

text \<open>The body of the loop of \<open>writeOutput\<close> for \<open>peopleList[i]\<close>.\<close>

definition outputLine :: "Person \<Rightarrow> fprintfCall" where
  "outputLine p =
     (if fgeq (probability p) MEDICAL_SUPERVISION_THRESHOLD \<or>
         fless (fabsf (fsub (probability p) MEDICAL_SUPERVISION_THRESHOLD)) EPSILON
      then Fprintf MEDICAL_SUPERVISION_THRESHOLD_MSG (name p) (id_field p)
      else if fgeq (probability p) REGULAR_QUARANTINE_THRESHOLD \<or>
              fless (fabsf (fsub (probability p) REGULAR_QUARANTINE_THRESHOLD)) EPSILON
      then Fprintf REGULAR_QUARANTINE_MSG (name p) (id_field p)
      else Fprintf CLEAN_MSG (name p) (id_field p))"

text \<open>
  \<open>for (int i = peopleListSize - 1; i >= 0; --i)\<close>: \<open>writeLoop peopleList n\<close> is the loop
  from \<open>i = n - 1\<close> down to 0.
\<close>

fun writeLoop :: "Person list \<Rightarrow> nat \<Rightarrow> fprintfCall list" where
  "writeLoop peopleList 0 = []"
| "writeLoop peopleList (Suc i) = outputLine (peopleList ! i) # writeLoop peopleList i"

definition writeOutput :: "Person list \<Rightarrow> fprintfCall list" where
  "writeOutput peopleList = writeLoop peopleList (length peopleList)"

section \<open>Example records\<close>

definition alice :: Person where
  "alice = \<lparr>name = ''Alice'', id_field = 1, age = Finite 30, probability = Finite 0\<rparr>"

definition bob :: Person where
  "bob = \<lparr>name = ''Bob'', id_field = 2, age = Finite 40, probability = Finite 0\<rparr>"

definition carol :: Person where
  "carol = \<lparr>name = ''Carol'', id_field = 3, age = Finite 70, probability = Finite 0\<rparr>"

section \<open>Functions on lists for the statements and the proofs\<close>

text \<open>
  \<open>mergeL\<close> and \<open>msortL\<close> are the merge and the merge sort of the code on lists, without
  the arrays; \<open>mergeFrom\<close> is \<open>merge\<close> started at any pair of counters. The proofs show
  that the array code computes them.
\<close>

fun mergeL :: "compFunc \<Rightarrow> Person list \<Rightarrow> Person list \<Rightarrow> Person list" where
  "mergeL cmp [] ys = ys"
| "mergeL cmp xs [] = xs"
| "mergeL cmp (x # xs) (y # ys) =
     (if cmp x y < 0 then x # mergeL cmp xs (y # ys) else y # mergeL cmp (x # xs) ys)"

definition mergeFrom ::
  "Person list \<Rightarrow> Person list \<Rightarrow> nat \<Rightarrow> Person list \<Rightarrow> nat \<Rightarrow> nat \<Rightarrow> compFunc \<Rightarrow> nat \<Rightarrow> nat \<Rightarrow> Person list" where
  "mergeFrom peopleList a aLen b bLen start cmp aI bI =
     (case mergeLoop peopleList a aLen b bLen start cmp aI bI of
        (peopleList', aI', bI') \<Rightarrow>
          if aI' < aLen then copyRestA peopleList' a aLen start bI' aI'
          else copyRestB peopleList' b bLen start aI' bI')"

function msortL :: "compFunc \<Rightarrow> Person list \<Rightarrow> Person list" where
  "msortL cmp xs =
     (if length xs < 2 then xs
      else mergeL cmp (msortL cmp (take (length xs div 2) xs))
                      (msortL cmp (drop (length xs div 2) xs)))"
  by pat_completeness auto
termination
  by (relation "measure (\<lambda>(cmp, xs). length xs)") auto

declare msortL.simps [simp del]

text \<open>
  A list is in non-decreasing order under a comparator when no element is greater than
  its successor: the comparator is not positive on any adjacent pair.
\<close>

fun nondecreasing :: "compFunc \<Rightarrow> Person list \<Rightarrow> bool" where
  "nondecreasing cmp [] = True"
| "nondecreasing cmp [x] = True"
| "nondecreasing cmp (x # y # zs) = (\<not> 0 < cmp x y \<and> nondecreasing cmp (y # zs))"

text \<open>What the merge needs of a comparator: when \<open>x\<close> is not below \<open>y\<close>, \<open>y\<close> is not above \<open>x\<close>.\<close>

definition weakAntisym :: "compFunc \<Rightarrow> bool" where
  "weakAntisym cmp = (\<forall>x y. 0 \<le> cmp x y \<longrightarrow> cmp y x \<le> 0)"

definition headOk :: "compFunc \<Rightarrow> Person \<Rightarrow> Person list \<Rightarrow> bool" where
  "headOk cmp z l = (case l of [] \<Rightarrow> True | w # ws \<Rightarrow> \<not> 0 < cmp z w)"

text \<open>
  The four fields of a meeting line as \<open>probUpdater\<close> reads them, for the statements
  about it: the identifiers through \<open>strtol\<close> and the conversion to \<open>unsigned long\<close>,
  the distance and the time through \<open>strtof\<close>. \<open>resolvable\<close> says that a line has the
  four fields and both identifiers are in the array, \<open>infectedIs\<close> that the infected
  person of a line has the given identifier, and \<open>setProbability\<close> is the assignment to
  the \<open>probability\<close> field of one element.
\<close>

definition meetingFields ::
  "(string \<Rightarrow> cfloat) \<Rightarrow> string \<Rightarrow> (64 word \<times> 64 word \<times> cfloat \<times> cfloat) option" where
  "meetingFields strtof line =
     do {
       (tok1, rest1) \<leftarrow> strtok line;
       (tok2, rest2) \<leftarrow> strtok rest1;
       (tok3, rest3) \<leftarrow> strtok rest2;
       (tok4, rest4) \<leftarrow> strtok rest3;
       Some (word_of_int (strtol tok1), word_of_int (strtol tok2), strtof tok3, strtof tok4)
     }"

definition resolvable :: "(string \<Rightarrow> cfloat) \<Rightarrow> Person list \<Rightarrow> string \<Rightarrow> bool" where
  "resolvable strtof peopleList line =
     (case meetingFields strtof line of
        None \<Rightarrow> False
      | Some (a, b, d, t) \<Rightarrow> a \<in> set (map id_field peopleList) \<and> b \<in> set (map id_field peopleList))"

definition infectedIs :: "(string \<Rightarrow> cfloat) \<Rightarrow> 64 word \<Rightarrow> string \<Rightarrow> bool" where
  "infectedIs strtof b line =
     (case meetingFields strtof line of None \<Rightarrow> False | Some (a', b', d', t') \<Rightarrow> b' = b)"

definition setProbability :: "Person list \<Rightarrow> int \<Rightarrow> cfloat \<Rightarrow> Person list" where
  "setProbability pl j x = pl[nat j := (pl ! nat j)\<lparr>probability := x\<rparr>]"

text \<open>
  An allocator that never fails, one that always fails, a C library in which every call
  succeeds, and the format of an output line.
\<close>

definition alwaysOk :: "nat \<Rightarrow> bool" where
  "alwaysOk n = True"

definition neverOk :: "nat \<Rightarrow> bool" where
  "neverOk n = False"

definition libcOk :: environment where
  "libcOk = \<lparr>arrayCalloc = True, nameCalloc = (\<lambda>i. alwaysOk), arrayRealloc = alwaysOk,
             fileClose = True\<rparr>"

definition formatOf :: "fprintfCall \<Rightarrow> string" where
  "formatOf c = (case c of Fprintf fmt n i \<Rightarrow> fmt)"

section \<open>Rounding to float: lemmas\<close>

lemma quantum_pos: "0 < q \<Longrightarrow> 0 < quantum a q n"
  by (induction n arbitrary: q) auto

lemma round_even_nonneg: "0 \<le> x \<Longrightarrow> 0 \<le> round_even x"
  by (auto simp: round_even_def Let_def)

lemma floor_le_round_even: "\<lfloor>x\<rfloor> \<le> round_even x"
  by (simp add: round_even_def Let_def)

lemma round_even_ge:
  assumes "of_int n \<le> x"
  shows "n \<le> round_even x"
proof -
  have "n \<le> \<lfloor>x\<rfloor>" using assms by (simp add: le_floor_iff)
  then show ?thesis using floor_le_round_even [of x] by linarith
qed

lemma round_even_int [simp]: "round_even (of_int n) = n"
  by (simp add: round_even_def)

lemma roundMag_nonneg: "0 \<le> a \<Longrightarrow> 0 \<le> roundMag a"
proof -
  assume a: "0 \<le> a"
  define q where "q = quantum a minSubnormal 253"
  have q: "0 < q" unfolding q_def by (rule quantum_pos) (simp add: minSubnormal_def)
  then have "0 \<le> a / q" using a by simp
  then have "0 \<le> round_even (a / q)" by (rule round_even_nonneg)
  then show ?thesis using q by (simp add: roundMag_def q_def [symmetric])
qed

lemma fabsf_round32:
  "fabsf (round32 s r) =
     (if r = 0 then Finite 0
      else if 2 ^ 128 \<le> roundMag \<bar>r\<bar> then PosInf else Finite (roundMag \<bar>r\<bar>))"
  using roundMag_nonneg [of "\<bar>r\<bar>"]
  by (auto simp: round32_def Let_def signedZero_def signedInf_def)

lemma quantum_char:
  "0 < q \<Longrightarrow>
   \<exists>k\<le>n. quantum a q n = q * 2 ^ k \<and> (k < n \<longrightarrow> a < 2 ^ 24 * (q * 2 ^ k))
          \<and> (\<forall>j<k. 2 ^ 24 * (q * 2 ^ j) \<le> a)"
proof (induction n arbitrary: q)
  case 0
  then show ?case by simp
next
  case (Suc n)
  show ?case
  proof (cases "a < 2 ^ 24 * q")
    case True
    then show ?thesis by (intro exI [of _ 0]) simp
  next
    case False
    have "0 < 2 * q" using Suc.prems by simp
    from Suc.IH [OF this] obtain k where k: "k \<le> n" "quantum a (2 * q) n = 2 * q * 2 ^ k"
      "k < n \<longrightarrow> a < 2 ^ 24 * (2 * q * 2 ^ k)" "\<forall>j<k. 2 ^ 24 * (2 * q * 2 ^ j) \<le> a"
      by blast
    have low: "2 ^ 24 * (q * 2 ^ j) \<le> a" if "j < Suc k" for j
    proof (cases j)
      case 0
      then show ?thesis using False by simp
    next
      case (Suc j')
      then have "j' < k" using that by simp
      then have "2 ^ 24 * (2 * q * 2 ^ j') \<le> a" using k(4) by blast
      then show ?thesis using Suc by (simp add: mult.assoc mult.left_commute)
    qed
    show ?thesis
      using False k(1,2,3) low
      by (intro exI [of _ "Suc k"]) (simp add: mult.assoc mult.left_commute)
  qed
qed

lemma minSubnormal_pos: "0 < minSubnormal"
  by (simp add: minSubnormal_def)

lemma quantum_binade:
  assumes lo: "2 ^ 24 * (minSubnormal * 2 ^ K) \<le> a"
    and hi: "a < 2 ^ 24 * (minSubnormal * 2 ^ Suc K)"
    and K: "Suc K \<le> 253"
  shows "quantum a minSubnormal 253 = minSubnormal * 2 ^ Suc K"
proof -
  from quantum_char [OF minSubnormal_pos, of 253 a]
  obtain k where k: "k \<le> 253" "quantum a minSubnormal 253 = minSubnormal * 2 ^ k"
    "k < 253 \<longrightarrow> a < 2 ^ 24 * (minSubnormal * 2 ^ k)"
    "\<forall>j<k. 2 ^ 24 * (minSubnormal * 2 ^ j) \<le> a"
    by blast
  have mono: "i \<le> j \<Longrightarrow> 2 ^ 24 * (minSubnormal * 2 ^ i) \<le> 2 ^ 24 * (minSubnormal * (2::real) ^ j)"
    for i j :: nat
    using minSubnormal_pos by (simp add: power_increasing)
  have "\<not> k < Suc K"
  proof
    assume c: "k < Suc K"
    then have "a < 2 ^ 24 * (minSubnormal * 2 ^ k)" using k(3) K by simp
    moreover have "2 ^ 24 * (minSubnormal * 2 ^ k) \<le> 2 ^ 24 * (minSubnormal * 2 ^ K)"
      using c by (intro mono) simp
    ultimately show False using lo by linarith
  qed
  moreover have "\<not> Suc K < k"
  proof
    assume "Suc K < k"
    then have "2 ^ 24 * (minSubnormal * 2 ^ Suc K) \<le> a" using k(4) by blast
    then show False using hi by linarith
  qed
  ultimately have "k = Suc K" by simp
  then show ?thesis using k(2) by simp
qed

lemma roundMag_lower:
  assumes "minSubnormal * 2 ^ K \<le> a"
  shows "minSubnormal * 2 ^ K \<le> roundMag a"
proof -
  from quantum_char [OF minSubnormal_pos, of 253 a]
  obtain k where k: "quantum a minSubnormal 253 = minSubnormal * 2 ^ k"
    "\<forall>j<k. 2 ^ 24 * (minSubnormal * 2 ^ j) \<le> a"
    by blast
  define q where "q = minSubnormal * 2 ^ k"
  have q: "0 < q" using minSubnormal_pos by (simp add: q_def)
  have rm: "roundMag a = of_int (round_even (a / q)) * q"
    by (simp add: roundMag_def Let_def k(1) q_def)
  show ?thesis
  proof (cases "k \<le> K")
    case True
    have c: "minSubnormal * 2 ^ K = of_int (2 ^ (K - k)) * q"
      using True by (simp add: q_def power_add [symmetric])
    then have "of_int (2 ^ (K - k)) \<le> a / q"
      using assms q by (simp add: pos_le_divide_eq)
    then have "2 ^ (K - k) \<le> round_even (a / q)" by (rule round_even_ge)
    then have "of_int (2 ^ (K - k)) * q \<le> of_int (round_even (a / q)) * q"
      using q by (simp add: mult_right_mono)
    then show ?thesis using c rm by simp
  next
    case False
    then obtain j where j: "k = Suc j" "K \<le> j" by (cases k) auto
    have "2 ^ 24 * (minSubnormal * 2 ^ j) \<le> a" using k(2) j by simp
    moreover have "2 ^ 24 * (minSubnormal * 2 ^ j) = of_int (2 ^ 23) * q"
      by (simp add: q_def j)
    ultimately have "of_int (2 ^ 23) \<le> a / q" using q by (simp add: pos_le_divide_eq)
    then have "2 ^ 23 \<le> round_even (a / q)" by (rule round_even_ge)
    then have "of_int (2 ^ 23) * q \<le> of_int (round_even (a / q)) * q"
      using q by (simp add: mult_right_mono)
    moreover have "minSubnormal * 2 ^ K \<le> q"
    proof -
      have "(2::real) ^ K \<le> 2 ^ k" using j by (intro power_increasing) simp_all
      then show ?thesis using minSubnormal_pos by (simp add: q_def)
    qed
    moreover have "q \<le> of_int (2 ^ 23) * q" using q by simp
    ultimately show ?thesis using rm by linarith
  qed
qed

lemma isFloat32_multiple:
  assumes f: "isFloat32 (Finite r)" and pos: "0 < r"
    and lo: "2 ^ 24 * (minSubnormal * 2 ^ K) \<le> r"
    and hi: "r < 2 ^ 24 * (minSubnormal * 2 ^ Suc K)"
    and K: "Suc K \<le> 253"
  shows "\<exists>m::int. r = of_int m * (minSubnormal * 2 ^ Suc K)"
proof -
  have "round32 False r = Finite r" using f by (simp add: isFloat32_def)
  then have "roundMag r = r"
    using pos by (auto simp: round32_def Let_def signedInf_def signedZero_def split: if_splits)
  moreover have "roundMag r = of_int (round_even (r / (minSubnormal * 2 ^ Suc K))) * (minSubnormal * 2 ^ Suc K)"
    using quantum_binade [OF lo hi K] by (simp add: roundMag_def Let_def)
  ultimately show ?thesis by metis
qed

lemma round_even_le:
  assumes "x \<le> of_int m"
  shows "round_even x \<le> m"
proof (cases "x = of_int m")
  case True
  then show ?thesis by simp
next
  case False
  then have "x < of_int m" using assms by simp
  then have "\<lfloor>x\<rfloor> < m" by (simp add: floor_less_iff)
  then have "\<lfloor>x\<rfloor> + 1 \<le> m" by simp
  moreover have "round_even x \<le> \<lfloor>x\<rfloor> + 1" by (simp add: round_even_def Let_def)
  ultimately show ?thesis by linarith
qed

lemma quantum_unique:
  assumes k: "k \<le> 253"
    and hi: "k < 253 \<longrightarrow> a < 2 ^ 24 * (minSubnormal * 2 ^ k)"
    and lo: "\<forall>j<k. 2 ^ 24 * (minSubnormal * 2 ^ j) \<le> a"
  shows "quantum a minSubnormal 253 = minSubnormal * 2 ^ k"
proof -
  from quantum_char [OF minSubnormal_pos, of 253 a]
  obtain k' where k': "k' \<le> 253" "quantum a minSubnormal 253 = minSubnormal * 2 ^ k'"
    "k' < 253 \<longrightarrow> a < 2 ^ 24 * (minSubnormal * 2 ^ k')"
    "\<forall>j<k'. 2 ^ 24 * (minSubnormal * 2 ^ j) \<le> a"
    by blast
  have "\<not> k' < k"
  proof
    assume c: "k' < k"
    then have "a < 2 ^ 24 * (minSubnormal * 2 ^ k')" using k'(3) k by simp
    moreover have "2 ^ 24 * (minSubnormal * 2 ^ k') \<le> a" using lo c by blast
    ultimately show False by simp
  qed
  moreover have "\<not> k < k'"
  proof
    assume c: "k < k'"
    then have "a < 2 ^ 24 * (minSubnormal * 2 ^ k)" using hi k'(1) by simp
    moreover have "2 ^ 24 * (minSubnormal * 2 ^ k) \<le> a" using k'(4) c by blast
    ultimately show False by simp
  qed
  ultimately have "k' = k" by simp
  then show ?thesis using k'(2) by simp
qed

lemma roundMag_idem:
  assumes a: "0 \<le> a" and fin: "roundMag a < 2 ^ 128"
  shows "roundMag (roundMag a) = roundMag a"
proof -
  from quantum_char [OF minSubnormal_pos, of 253 a]
  obtain k where k: "k \<le> 253" "quantum a minSubnormal 253 = minSubnormal * 2 ^ k"
    "k < 253 \<longrightarrow> a < 2 ^ 24 * (minSubnormal * 2 ^ k)"
    "\<forall>j<k. 2 ^ 24 * (minSubnormal * 2 ^ j) \<le> a"
    by blast
  define q where "q = minSubnormal * 2 ^ k"
  define n where "n = round_even (a / q)"
  define v where "v = of_int n * q"
  have q: "0 < q" using minSubnormal_pos by (simp add: q_def)
  have v: "roundMag a = v" by (simp add: roundMag_def Let_def k(2) q_def n_def v_def)
  have n0: "0 \<le> n" unfolding n_def using a q by (intro round_even_nonneg) simp
  have top: "(2::real) ^ 128 = 2 ^ 24 * (minSubnormal * 2 ^ 253)"
    by (simp add: minSubnormal_def)
  have nle: "n \<le> 2 ^ 24"
  proof (cases "k < 253")
    case True
    then have "a < 2 ^ 24 * q" using k(3) by (simp add: q_def)
    then have "a / q \<le> of_int (2 ^ 24)" using q by (simp add: pos_divide_le_eq)
    then show ?thesis unfolding n_def by (rule round_even_le)
  next
    case False
    then have "k = 253" using k(1) by simp
    then have "of_int n * q < 2 ^ 24 * q" using fin unfolding v v_def top q_def by simp
    then have "of_int n < (2 ^ 24 :: real)" using q by simp
    then have "n < 2 ^ 24" by (metis of_int_less_iff of_int_numeral of_int_power)
    then show ?thesis by simp
  qed
  have nge: "2 ^ 23 \<le> n" if kp: "0 < k"
  proof -
    obtain j where j: "k = Suc j" using kp by (cases k) auto
    have "2 ^ 24 * (minSubnormal * 2 ^ j) \<le> a" using k(4) j by simp
    moreover have "2 ^ 24 * (minSubnormal * 2 ^ j) = of_int (2 ^ 23) * q"
      by (simp add: q_def j)
    ultimately have "of_int (2 ^ 23) \<le> a / q" using q by (simp add: pos_le_divide_eq)
    then show ?thesis unfolding n_def by (rule round_even_ge)
  qed
  show ?thesis
  proof (cases "n = 2 ^ 24")
    case True
    have k253: "k < 253"
    proof (rule ccontr)
      assume "\<not> k < 253"
      then have "k = 253" using k(1) by simp
      then have "v = 2 ^ 128" unfolding v_def True top q_def by simp
      then show False using fin v by simp
    qed
    have vq: "v = 2 ^ 24 * q" by (simp add: v_def True)
    have "quantum v minSubnormal 253 = minSubnormal * 2 ^ Suc k"
    proof (rule quantum_unique)
      show "Suc k \<le> 253" using k253 by simp
      show "Suc k < 253 \<longrightarrow> v < 2 ^ 24 * (minSubnormal * 2 ^ Suc k)"
        using q by (simp add: vq q_def)
      show "\<forall>j<Suc k. 2 ^ 24 * (minSubnormal * 2 ^ j) \<le> v"
      proof (intro allI impI)
        fix j assume "j < Suc k"
        then have "(2::real) ^ j \<le> 2 ^ k" by (intro power_increasing) simp_all
        then show "2 ^ 24 * (minSubnormal * 2 ^ j) \<le> v"
          using minSubnormal_pos by (simp add: vq q_def)
      qed
    qed
    then have "roundMag v = of_int (round_even (v / (2 * q))) * (2 * q)"
      by (simp add: roundMag_def Let_def q_def mult.assoc mult.left_commute)
    moreover have "v / (2 * q) = of_int (2 ^ 23)" using q by (simp add: vq)
    ultimately have "roundMag v = of_int (2 ^ 23) * (2 * q)" by (simp only: round_even_int)
    then show ?thesis unfolding v by (simp add: vq)
  next
    case False
    then have nlt: "n < 2 ^ 24" using nle by simp
    have "quantum v minSubnormal 253 = minSubnormal * 2 ^ k"
    proof (rule quantum_unique [OF k(1)])
      have "of_int n < (2 ^ 24 :: real)"
        using nlt by (metis of_int_less_iff of_int_numeral of_int_power)
      then have "v < 2 ^ 24 * q" using q by (simp add: v_def)
      then show "k < 253 \<longrightarrow> v < 2 ^ 24 * (minSubnormal * 2 ^ k)" by (simp add: q_def)
      show "\<forall>j<k. 2 ^ 24 * (minSubnormal * 2 ^ j) \<le> v"
      proof (intro allI impI)
        fix j assume j: "j < k"
        then have "2 ^ 23 \<le> n" using nge by simp
        then have "(2 ^ 23 :: real) \<le> of_int n"
          by (metis of_int_le_iff of_int_numeral of_int_power)
        then have "2 ^ 23 * q \<le> v" using q by (simp add: v_def)
        moreover have "2 ^ 24 * (minSubnormal * 2 ^ j) \<le> 2 ^ 23 * q"
        proof -
          obtain i where i: "k = Suc i" using j by (cases k) auto
          then have "(2::real) ^ j \<le> 2 ^ i" using j by (intro power_increasing) simp_all
          then show ?thesis using minSubnormal_pos by (simp add: q_def i)
        qed
        ultimately show "2 ^ 24 * (minSubnormal * 2 ^ j) \<le> v" by linarith
      qed
    qed
    then have "roundMag v = of_int (round_even (v / q)) * q"
      by (simp add: roundMag_def Let_def q_def)
    moreover have "v / q = of_int n" using q by (simp add: v_def)
    ultimately have "roundMag v = of_int n * q" by (simp only: round_even_int)
    then show ?thesis unfolding v by (simp add: v_def)
  qed
qed

lemma isFloat32_round32: "isFloat32 (round32 s r)"
proof (cases "r = 0 \<or> 2 ^ 128 \<le> roundMag \<bar>r\<bar> \<or> roundMag \<bar>r\<bar> = 0")
  case True
  then show ?thesis
    by (auto simp: isFloat32_def round32_def Let_def signedZero_def signedInf_def)
next
  case False
  define v where "v = roundMag \<bar>r\<bar>"
  have v: "0 < v" "v < 2 ^ 128" using False roundMag_nonneg [of "\<bar>r\<bar>"] by (auto simp: v_def)
  have i: "roundMag v = v" unfolding v_def using v(2) by (intro roundMag_idem) (simp_all add: v_def)
  have "round32 s r = Finite (if r < 0 then - v else v)"
    using False by (simp add: round32_def Let_def v_def)
  moreover have "round32 False (if r < 0 then - v else v) = Finite (if r < 0 then - v else v)"
    using v i by (simp add: round32_def Let_def)
  ultimately show ?thesis by (simp add: isFloat32_def)
qed

lemma isFloat32_fmul: "isFloat32 (fmul x y)"
  by (simp add: fmul_def isFloat32_round32) (simp add: isFloat32_def signedInf_def)

text \<open>
  The facts that evaluate the operations on given numbers, and the parsers on given
  text.
\<close>

lemmas float_eval = fmul_def fdiv_def fsub_def round32_def roundMag_def minSubnormal_def
  round_even_def isInf_def isZero_def signedZero_def signedInf_def eval_nat_numeral Let_def

lemmas parse_eval = strtok_def SEPARATOR_def strtol_def afterSign_def isspace_def isdigit_def
  isNegative_def decimalValue_def LONG_MAX_def LONG_MIN_def strtof_decimal_def
  fractionDigits_def

section \<open>The array code computes the merge sort on lists\<close>

lemma take_update_at: "k < length xs \<Longrightarrow> take (Suc k) (xs[k := x]) = take k xs @ [x]"
  by (simp add: take_Suc_conv_app_nth)

lemma drop_take_step: "i < n \<Longrightarrow> n \<le> length a \<Longrightarrow> drop i (take n a) = a ! i # drop (Suc i) (take n a)"
  by (simp add: Cons_nth_drop_Suc [symmetric])

lemma copyRestA_eq:
  "start + bI + aLen \<le> length pl \<Longrightarrow> aLen \<le> length a \<Longrightarrow> i \<le> aLen \<Longrightarrow>
   copyRestA pl a aLen start bI i
     = take (start + bI + i) pl @ drop i (take aLen a) @ drop (start + bI + aLen) pl"
proof (induction pl a aLen start bI i rule: copyRestA.induct)
  case (1 pl a aLen start bI i)
  show ?case
  proof (cases "i < aLen")
    case True
    let ?pl = "pl[start + i + bI := a ! i]"
    have k: "start + bI + i < length pl" using True "1.prems" by simp
    have e0: "start + i + bI = start + bI + i" by simp
    have s1: "copyRestA pl a aLen start bI i = copyRestA ?pl a aLen start bI (i + 1)"
      using True by (subst copyRestA.simps) simp
    have s2: "copyRestA ?pl a aLen start bI (i + 1)
               = take (start + bI + (i + 1)) ?pl @ drop (i + 1) (take aLen a)
                      @ drop (start + bI + aLen) ?pl"
      using "1.IH" [OF True] "1.prems" True by simp
    have s3: "take (start + bI + (i + 1)) ?pl = take (start + bI + i) pl @ [a ! i]"
      using take_update_at [OF k, of "a ! i"] by (simp add: e0)
    have s4: "drop (start + bI + aLen) ?pl = drop (start + bI + aLen) pl"
      using True by simp
    have s5: "drop i (take aLen a) = a ! i # drop (i + 1) (take aLen a)"
      using drop_take_step [OF True] "1.prems" by simp
    show ?thesis unfolding s1 s2 s3 s4 s5 by simp
  next
    case False
    then have "i = aLen" using "1.prems" by simp
    then show ?thesis using "1.prems" by (subst copyRestA.simps) simp
  qed
qed

lemma copyRestB_eq:
  "start + aI + bLen \<le> length pl \<Longrightarrow> bLen \<le> length b \<Longrightarrow> j \<le> bLen \<Longrightarrow>
   copyRestB pl b bLen start aI j
     = take (start + aI + j) pl @ drop j (take bLen b) @ drop (start + aI + bLen) pl"
proof (induction pl b bLen start aI j rule: copyRestB.induct)
  case (1 pl b bLen start aI j)
  show ?case
  proof (cases "j < bLen")
    case True
    let ?pl = "pl[start + aI + j := b ! j]"
    have k: "start + aI + j < length pl" using True "1.prems" by simp
    have s1: "copyRestB pl b bLen start aI j = copyRestB ?pl b bLen start aI (j + 1)"
      using True by (subst copyRestB.simps) simp
    have s2: "copyRestB ?pl b bLen start aI (j + 1)
               = take (start + aI + (j + 1)) ?pl @ drop (j + 1) (take bLen b)
                      @ drop (start + aI + bLen) ?pl"
      using "1.IH" [OF True] "1.prems" True by simp
    have s3: "take (start + aI + (j + 1)) ?pl = take (start + aI + j) pl @ [b ! j]"
      using take_update_at [OF k, of "b ! j"] by simp
    have s4: "drop (start + aI + bLen) ?pl = drop (start + aI + bLen) pl"
      using True by simp
    have s5: "drop j (take bLen b) = b ! j # drop (j + 1) (take bLen b)"
      using drop_take_step [OF True] "1.prems" by simp
    show ?thesis unfolding s1 s2 s3 s4 s5 by simp
  next
    case False
    then have "j = bLen" using "1.prems" by simp
    then show ?thesis using "1.prems" by (subst copyRestB.simps) simp
  qed
qed

lemma mergeL_Nil2 [simp]: "mergeL cmp xs [] = xs"
  by (cases xs) simp_all

lemma mergeFrom_step:
  "mergeFrom pl a aLen b bLen start cmp aI bI =
     (if aI < aLen \<and> bI < bLen then
        if cmp (a ! aI) (b ! bI) < 0
        then mergeFrom (pl[start + aI + bI := a ! aI]) a aLen b bLen start cmp (aI + 1) bI
        else mergeFrom (pl[start + aI + bI := b ! bI]) a aLen b bLen start cmp aI (bI + 1)
      else if aI < aLen then copyRestA pl a aLen start bI aI
      else copyRestB pl b bLen start aI bI)"
  unfolding mergeFrom_def by (subst mergeLoop.simps) simp

lemma mergeFrom_eq:
  "start + aLen + bLen \<le> length pl \<Longrightarrow> aLen \<le> length a \<Longrightarrow> bLen \<le> length b \<Longrightarrow>
   aI \<le> aLen \<Longrightarrow> bI \<le> bLen \<Longrightarrow>
   mergeFrom pl a aLen b bLen start cmp aI bI
     = take (start + aI + bI) pl
       @ mergeL cmp (drop aI (take aLen a)) (drop bI (take bLen b))
       @ drop (start + aLen + bLen) pl"
proof (induction pl a aLen b bLen start cmp aI bI rule: mergeLoop.induct)
  case (1 pl a aLen b bLen start cmp aI bI)
  show ?case
  proof (cases "aI < aLen \<and> bI < bLen")
    case True
    then have ta: "aI < aLen" and tb: "bI < bLen" by simp_all
    have k: "start + aI + bI < length pl" using True "1.prems" by simp
    have da: "drop aI (take aLen a) = a ! aI # drop (aI + 1) (take aLen a)"
      using drop_take_step [OF ta] "1.prems" by simp
    have db: "drop bI (take bLen b) = b ! bI # drop (bI + 1) (take bLen b)"
      using drop_take_step [OF tb] "1.prems" by simp
    show ?thesis
    proof (cases "cmp (a ! aI) (b ! bI) < 0")
      case lt: True
      let ?pl = "pl[start + aI + bI := a ! aI]"
      have s1: "mergeFrom pl a aLen b bLen start cmp aI bI
                 = mergeFrom ?pl a aLen b bLen start cmp (aI + 1) bI"
        using True lt by (subst mergeFrom_step) simp
      have s2: "mergeFrom ?pl a aLen b bLen start cmp (aI + 1) bI
                 = take (start + (aI + 1) + bI) ?pl
                   @ mergeL cmp (drop (aI + 1) (take aLen a)) (drop bI (take bLen b))
                   @ drop (start + aLen + bLen) ?pl"
        using "1.IH"(1) [OF True lt] "1.prems" True by simp
      have s3: "take (start + (aI + 1) + bI) ?pl = take (start + aI + bI) pl @ [a ! aI]"
        using take_update_at [OF k, of "a ! aI"] by simp
      have s4: "drop (start + aLen + bLen) ?pl = drop (start + aLen + bLen) pl"
        using True by simp
      have s5: "mergeL cmp (drop aI (take aLen a)) (drop bI (take bLen b))
                 = a ! aI # mergeL cmp (drop (aI + 1) (take aLen a)) (drop bI (take bLen b))"
      proof -
        have "mergeL cmp (a ! aI # A) (b ! bI # B) = a ! aI # mergeL cmp A (b ! bI # B)" for A B
          using lt by simp
        then show ?thesis by (metis da db)
      qed
      show ?thesis unfolding s1 s2 s3 s4 s5 by simp
    next
      case ge: False
      let ?pl = "pl[start + aI + bI := b ! bI]"
      have s1: "mergeFrom pl a aLen b bLen start cmp aI bI
                 = mergeFrom ?pl a aLen b bLen start cmp aI (bI + 1)"
        using True ge by (subst mergeFrom_step) simp
      have s2: "mergeFrom ?pl a aLen b bLen start cmp aI (bI + 1)
                 = take (start + aI + (bI + 1)) ?pl
                   @ mergeL cmp (drop aI (take aLen a)) (drop (bI + 1) (take bLen b))
                   @ drop (start + aLen + bLen) ?pl"
        using "1.IH"(2) [OF True ge] "1.prems" True by simp
      have s3: "take (start + aI + (bI + 1)) ?pl = take (start + aI + bI) pl @ [b ! bI]"
        using take_update_at [OF k, of "b ! bI"] by simp
      have s4: "drop (start + aLen + bLen) ?pl = drop (start + aLen + bLen) pl"
        using True by simp
      have s5: "mergeL cmp (drop aI (take aLen a)) (drop bI (take bLen b))
                 = b ! bI # mergeL cmp (drop aI (take aLen a)) (drop (bI + 1) (take bLen b))"
      proof -
        have "mergeL cmp (a ! aI # A) (b ! bI # B) = b ! bI # mergeL cmp (a ! aI # A) B" for A B
          using ge by simp
        then show ?thesis by (metis da db)
      qed
      show ?thesis unfolding s1 s2 s3 s4 s5 by simp
    qed
  next
    case False
    show ?thesis
    proof (cases "aI < aLen")
      case ta: True
      then have bI: "bI = bLen" using False "1.prems" by simp
      have "mergeFrom pl a aLen b bLen start cmp aI bI = copyRestA pl a aLen start bI aI"
        using False ta by (subst mergeFrom_step) simp
      also have "\<dots> = take (start + bI + aI) pl @ drop aI (take aLen a)
                        @ drop (start + bI + aLen) pl"
        using copyRestA_eq [of start bI aLen pl a aI] "1.prems" ta bI by simp
      finally show ?thesis using bI "1.prems" by (simp add: add.commute add.left_commute)
    next
      case fa: False
      then have aI: "aI = aLen" using "1.prems" by simp
      have "mergeFrom pl a aLen b bLen start cmp aI bI = copyRestB pl b bLen start aI bI"
        using False fa by (subst mergeFrom_step) simp
      also have "\<dots> = take (start + aI + bI) pl @ drop bI (take bLen b)
                        @ drop (start + aI + bLen) pl"
        using copyRestB_eq [of start aI bLen pl b bI] "1.prems" aI by simp
      finally show ?thesis using aI "1.prems" by simp
    qed
  qed
qed

lemma merge_eq:
  assumes "start + aLen + bLen \<le> length pl" "aLen \<le> length a" "bLen \<le> length b"
  shows "merge pl a aLen b bLen start cmp
           = take start pl @ mergeL cmp (take aLen a) (take bLen b) @ drop (start + aLen + bLen) pl"
proof -
  have "merge pl a aLen b bLen start cmp = mergeFrom pl a aLen b bLen start cmp 0 0"
    by (simp add: merge_def mergeFrom_def)
  then show ?thesis using mergeFrom_eq [OF assms, of 0 0 cmp] by simp
qed

lemma msortL_short: "length xs < 2 \<Longrightarrow> msortL cmp xs = xs"
  by (subst msortL.simps) simp

lemma length_mergeL [simp]: "length (mergeL cmp xs ys) = length xs + length ys"
  by (induction cmp xs ys rule: mergeL.induct) auto

lemma length_msortL [simp]: "length (msortL cmp xs) = length xs"
proof (induction cmp xs rule: msortL.induct)
  case (1 cmp xs)
  show ?case
  proof (cases "length xs < 2")
    case True
    then show ?thesis by (subst msortL.simps) simp
  next
    case False
    then show ?thesis using 1 by (subst msortL.simps) simp
  qed
qed

lemma copyToDraft_eq:
  "dOff + len \<le> length dr \<Longrightarrow> start + len \<le> length pl \<Longrightarrow> i \<le> len \<Longrightarrow>
   copyToDraft pl dr dOff len start i
     = take (dOff + i) dr @ drop i (take len (drop start pl)) @ drop (dOff + len) dr"
proof (induction pl dr dOff len start i rule: copyToDraft.induct)
  case (1 pl dr dOff len start i)
  show ?case
  proof (cases "i < len")
    case True
    let ?dr = "dr[dOff + i := pl ! (i + start)]"
    have k: "dOff + i < length dr" using True "1.prems" by simp
    have s1: "copyToDraft pl dr dOff len start i = copyToDraft pl ?dr dOff len start (i + 1)"
      using True by (subst copyToDraft.simps) simp
    have s2: "copyToDraft pl ?dr dOff len start (i + 1)
               = take (dOff + (i + 1)) ?dr @ drop (i + 1) (take len (drop start pl))
                 @ drop (dOff + len) ?dr"
      using "1.IH" [OF True] "1.prems" True by simp
    have s3: "take (dOff + (i + 1)) ?dr = take (dOff + i) dr @ [pl ! (i + start)]"
      using take_update_at [OF k, of "pl ! (i + start)"] by simp
    have s4: "drop (dOff + len) ?dr = drop (dOff + len) dr"
      using True by simp
    have "drop i (take len (drop start pl))
            = drop start pl ! i # drop (i + 1) (take len (drop start pl))"
      using drop_take_step [OF True, of "drop start pl"] "1.prems" by simp
    then have s5: "drop i (take len (drop start pl))
            = pl ! (i + start) # drop (i + 1) (take len (drop start pl))"
      using "1.prems" True by (simp add: add.commute)
    show ?thesis unfolding s1 s2 s3 s4 s5 by simp
  next
    case False
    then have "i = len" using "1.prems" by simp
    then show ?thesis using "1.prems" by (subst copyToDraft.simps) simp
  qed
qed

lemma copyToDraft_app:
  assumes "length Dm = length Y"
  shows "copyToDraft (P @ Y @ S) (D1 @ Dm @ D2) (length D1) (length Y) (length P) 0
           = D1 @ Y @ D2"
  using copyToDraft_eq [of "length D1" "length Y" "D1 @ Dm @ D2" "length P" "P @ Y @ S" 0] assms
  by simp

lemma merge_app:
  assumes "length Y = length A + length B"
  shows "merge (P @ Y @ S) (drop (length D1) (D1 @ (A @ B) @ D2)) (length A)
           (drop (length D1 + length A) (D1 @ (A @ B) @ D2)) (length B) (length P) cmp
         = P @ mergeL cmp A B @ S"
  using merge_eq [of "length P" "length A" "length B" "P @ Y @ S" "A @ B @ D2" "B @ D2" cmp] assms
  by simp

lemma mergeSort_unfold:
  assumes "2 \<le> len"
  shows "mergeSort pl dr dOff len start cmp =
     (case mergeSort pl dr dOff (len div 2) start cmp of
        (pl1, dr1) \<Rightarrow>
      case mergeSort pl1 dr1 (dOff + len div 2) (len - len div 2) (len div 2 + start) cmp of
        (pl2, dr2) \<Rightarrow>
      let dr3 = copyToDraft pl2 dr2 dOff len start 0
      in (merge pl2 (drop dOff dr3) (len div 2) (drop (dOff + len div 2) dr3) (len - len div 2)
            start cmp, dr3))"
proof -
  have a: "\<not> len < 1" and b: "len div 2 \<noteq> 0" using assms by auto
  show ?thesis
    by (subst mergeSort.simps) (simp only: a b if_False Let_def)
qed

lemma mergeSort_app:
  "length Dm = length X \<Longrightarrow>
   mergeSort (P @ X @ S) (D1 @ Dm @ D2) (length D1) (length X) (length P) cmp
     = (P @ msortL cmp X @ S,
        D1 @ (msortL cmp (take (length X div 2) X) @ msortL cmp (drop (length X div 2) X)) @ D2)"
proof (induction "length X" arbitrary: X P S D1 Dm D2 rule: less_induct)
  case less
  let ?h = "length X div 2"
  let ?A = "take ?h X" and ?B = "drop ?h X"
  show ?case
  proof (cases "length X < 2")
    case True
    show ?thesis
    proof (cases "length X = 0")
      case True
      then show ?thesis using less.prems
        by (subst mergeSort.simps) (simp add: msortL_short)
    next
      case False
      then have l1: "length X = 1" using True by arith
      then obtain x where X: "X = [x]" by (cases X) auto
      obtain d where Dm: "Dm = [d]" using less.prems l1 by (cases Dm) auto
      have m0: "mergeSort pl dr o1 0 o2 cmp = (pl, dr)" for pl dr o1 o2
        by (subst mergeSort.simps) simp
      have c: "copyToDraft (P @ [x] @ S) (D1 @ [d] @ D2) (length D1) (length [x]) (length P) 0
                 = D1 @ [x] @ D2"
        by (rule copyToDraft_app) simp
      have m: "merge (P @ [x] @ S) (drop (length D1) (D1 @ ([] @ []) @ ([x] @ D2))) (length ([]::Person list))
                 (drop (length D1 + length ([]::Person list)) (D1 @ ([] @ []) @ ([x] @ D2))) (length ([]::Person list)) (length P) cmp
               = P @ mergeL cmp [] [] @ ([x] @ S)"
        using merge_app [of "[]" "[]" "[]" P "[x] @ S" D1 "[x] @ D2" cmp] by simp
      show ?thesis unfolding X Dm
        using c m by (subst mergeSort.simps) (simp add: m0 msortL_short)
    qed
  next
    case False
    define h where "h = length X div 2"
    have h: "0 < h" "h < length X" using False by (auto simp: h_def)
    define A B where "A = take h X" and "B = drop h X"
    define DA DB where "DA = take h Dm" and "DB = drop h Dm"
    define A' B' where "A' = msortL cmp A" and "B' = msortL cmp B"
    define DA' where "DA' = msortL cmp (take (length A div 2) A) @ msortL cmp (drop (length A div 2) A)"
    define DB' where "DB' = msortL cmp (take (length B div 2) B) @ msortL cmp (drop (length B div 2) B)"
    have XAB: "P @ X @ S = P @ A @ B @ S" and DmAB: "D1 @ Dm @ D2 = D1 @ DA @ DB @ D2"
      by (simp_all add: A_def B_def DA_def DB_def)
    have lA: "length A = h" and lB: "length B = length X - h"
      using h by (simp_all add: A_def B_def)
    have lDA: "length DA = length A" and lDB: "length DB = length B"
      using less.prems h by (simp_all add: A_def B_def DA_def DB_def)
    have lA': "length A' = h" and lB': "length B' = length X - h"
      using lA lB by (simp_all add: A'_def B'_def)
    have lDA': "length DA' = h" and lDB': "length DB' = length X - h"
      using lA lB by (simp_all add: DA'_def DB'_def)
    have "length A < length X" using lA h by simp
    from less.hyps [OF this lDA, of P "B @ S" D1 "DB @ D2"]
    have r1: "mergeSort (P @ X @ S) (D1 @ Dm @ D2) (length D1) h (length P) cmp
               = (P @ A' @ B @ S, D1 @ DA' @ DB @ D2)"
      unfolding XAB DmAB lA by (simp add: A'_def DA'_def lA)
    have "length B < length X" using lB h by simp
    from less.hyps [OF this lDB, of "P @ A'" S "D1 @ DA'" D2]
    have r2: "mergeSort (P @ A' @ B @ S) (D1 @ DA' @ DB @ D2)
                 (length D1 + h) (length X - h) (h + length P) cmp
               = (P @ (A' @ B') @ S, D1 @ (DA' @ DB') @ D2)"
      unfolding lB by (simp add: lA' lDA' B'_def DB'_def lB add.commute)
    have lAB': "length (A' @ B') = length X" using lA' lB' h by simp
    have "length (DA' @ DB') = length (A' @ B')" using lDA' lDB' lA' lB' by simp
    from copyToDraft_app [OF this, of P S D1 D2]
    have c: "copyToDraft (P @ (A' @ B') @ S) (D1 @ (DA' @ DB') @ D2)
                (length D1) (length X) (length P) 0
             = D1 @ (A' @ B') @ D2"
      unfolding lAB' .
    have "length (A' @ B') = length A' + length B'" by simp
    from merge_app [OF this, of P S D1 D2 cmp]
    have m: "merge (P @ (A' @ B') @ S)
               (drop (length D1) (D1 @ (A' @ B') @ D2)) h
               (drop (length D1 + h) (D1 @ (A' @ B') @ D2))
               (length X - h) (length P) cmp
             = P @ mergeL cmp A' B' @ S"
      unfolding lA' lB' .
    have ms: "msortL cmp X = mergeL cmp A' B'"
      using False by (subst msortL.simps) (simp add: A'_def B'_def A_def B_def h_def)
    have step: "mergeSort (P @ X @ S) (D1 @ Dm @ D2) (length D1) (length X) (length P) cmp
      = (case mergeSort (P @ X @ S) (D1 @ Dm @ D2) (length D1) h (length P) cmp of
             (peopleList1, draftList1) \<Rightarrow>
        case mergeSort peopleList1 draftList1 (length D1 + h) (length X - h) (h + length P) cmp of
             (peopleList2, draftList2) \<Rightarrow>
        let draftList3 = copyToDraft peopleList2 draftList2 (length D1) (length X) (length P) 0
        in (merge peopleList2 (drop (length D1) draftList3) h (drop (length D1 + h) draftList3) (length X - h)
              (length P) cmp,
            draftList3))"
      unfolding h_def using False by (intro mergeSort_unfold) simp
    have "mergeSort (P @ X @ S) (D1 @ Dm @ D2) (length D1) (length X) (length P) cmp
            = (P @ msortL cmp X @ S, D1 @ (A' @ B') @ D2)"
      unfolding step r1 by (simp only: prod.case r2 Let_def c m ms)
    then show ?thesis by (simp add: A'_def B'_def A_def B_def h_def)
  qed
qed

section \<open>Permutation and order\<close>

lemma mset_mergeL [simp]: "mset (mergeL cmp xs ys) = mset xs + mset ys"
  by (induction cmp xs ys rule: mergeL.induct) auto

lemma mset_msortL [simp]: "mset (msortL cmp xs) = mset xs"
proof (induction cmp xs rule: msortL.induct)
  case (1 cmp xs)
  show ?case
  proof (cases "length xs < 2")
    case True
    then show ?thesis by (simp add: msortL_short)
  next
    case False
    have "mset (msortL cmp xs) = mset (take (length xs div 2) xs) + mset (drop (length xs div 2) xs)"
      using False 1 by (subst msortL.simps) simp
    also have "\<dots> = mset (take (length xs div 2) xs @ drop (length xs div 2) xs)"
      by (simp only: mset_append)
    finally show ?thesis by simp
  qed
qed

lemma nondecreasing_Cons: "nondecreasing cmp (z # l) = (headOk cmp z l \<and> nondecreasing cmp l)"
  by (cases l) (simp_all add: headOk_def)

lemma headOk_mergeL: "headOk cmp z xs \<Longrightarrow> headOk cmp z ys \<Longrightarrow> headOk cmp z (mergeL cmp xs ys)"
  by (induction cmp xs ys rule: mergeL.induct) (auto simp: headOk_def)

lemma nondecreasing_mergeL:
  "weakAntisym cmp \<Longrightarrow> nondecreasing cmp xs \<Longrightarrow> nondecreasing cmp ys
     \<Longrightarrow> nondecreasing cmp (mergeL cmp xs ys)"
proof (induction cmp xs ys rule: mergeL.induct)
  case (3 cmp x xs y ys)
  have nx: "headOk cmp x xs" "nondecreasing cmp xs" and ny: "headOk cmp y ys" "nondecreasing cmp ys"
    using "3.prems" by (simp_all add: nondecreasing_Cons)
  show ?case
  proof (cases "cmp x y < 0")
    case True
    have "headOk cmp x (y # ys)" using True by (simp add: headOk_def)
    then have "headOk cmp x (mergeL cmp xs (y # ys))" using nx(1) by (rule headOk_mergeL [rotated])
    moreover have "nondecreasing cmp (mergeL cmp xs (y # ys))"
      using "3.IH"(1) [OF True "3.prems"(1) nx(2) "3.prems"(3)] .
    ultimately show ?thesis using True by (simp add: nondecreasing_Cons)
  next
    case False
    then have "cmp y x \<le> 0" using "3.prems"(1) by (simp add: weakAntisym_def)
    then have "headOk cmp y (x # xs)" by (simp add: headOk_def)
    then have "headOk cmp y (mergeL cmp (x # xs) ys)" using ny(1) by (rule headOk_mergeL)
    moreover have "nondecreasing cmp (mergeL cmp (x # xs) ys)"
      using "3.IH"(2) [OF False "3.prems"(1) "3.prems"(2) ny(2)] .
    ultimately show ?thesis using False by (simp add: nondecreasing_Cons)
  qed
qed simp_all

lemma nondecreasing_msortL:
  "weakAntisym cmp \<Longrightarrow> nondecreasing cmp (msortL cmp xs)"
proof (induction cmp xs rule: msortL.induct)
  case (1 cmp xs)
  show ?case
  proof (cases "length xs < 2")
    case True
    then have "xs = [] \<or> (\<exists>x. xs = [x])" by (cases xs) (auto simp: length_Suc_conv)
    then show ?thesis using True by (auto simp: msortL_short)
  next
    case False
    have "msortL cmp xs = mergeL cmp (msortL cmp (take (length xs div 2) xs))
                      (msortL cmp (drop (length xs div 2) xs))"
      using False by (subst msortL.simps) simp
    then show ?thesis using 1 False by (simp add: nondecreasing_mergeL)
  qed
qed

lemma mergeL_append:
  "\<forall>x\<in>set xs. \<forall>y\<in>set ys. cmp x y < 0 \<Longrightarrow> mergeL cmp xs ys = xs @ ys"
  by (induction cmp xs ys rule: mergeL.induct) auto

lemma msortL_strict:
  "sorted_wrt (\<lambda>x y. cmp x y < 0) xs \<Longrightarrow> msortL cmp xs = xs"
proof (induction cmp xs rule: msortL.induct)
  case (1 cmp xs)
  show ?case
  proof (cases "length xs < 2")
    case True
    then show ?thesis by (simp add: msortL_short)
  next
    case False
    let ?A = "take (length xs div 2) xs" and ?B = "drop (length xs div 2) xs"
    have s: "sorted_wrt (\<lambda>x y. cmp x y < 0) (?A @ ?B)" using "1.prems" by simp
    then have sA: "sorted_wrt (\<lambda>x y. cmp x y < 0) ?A" and sB: "sorted_wrt (\<lambda>x y. cmp x y < 0) ?B"
      and cr: "\<forall>x\<in>set ?A. \<forall>y\<in>set ?B. cmp x y < 0"
      unfolding sorted_wrt_append by blast+
    have "msortL cmp xs = mergeL cmp (msortL cmp ?A) (msortL cmp ?B)"
      using False by (subst msortL.simps) simp
    also have "\<dots> = mergeL cmp ?A ?B"
      using "1.IH"(1) [OF False sA] "1.IH"(2) [OF False sB] by simp
    also have "\<dots> = ?A @ ?B" using cr by (rule mergeL_append)
    finally show ?thesis by simp
  qed
qed

lemma fabsf_fsub_commute: "fabsf (fsub a b) = fabsf (fsub b a)"
proof (cases "a = NaN \<or> b = NaN \<or> isInf a \<or> isInf b")
  case True
  then show ?thesis
    by (cases a; cases b) (auto simp: fsub_def isInf_def signedInf_def)
next
  case False
  then have "fsub a b = round32 (a = NegZero \<and> b = Finite 0) (val a - val b)"
    "fsub b a = round32 (b = NegZero \<and> a = Finite 0) (val b - val a)"
    by (auto simp: fsub_def)
  moreover have "\<bar>val a - val b\<bar> = \<bar>val b - val a\<bar>" by simp
  ultimately show ?thesis by (simp add: fabsf_round32)
qed

lemma fless_asym: "fless a b \<Longrightarrow> \<not> fless b a"
  by (cases a; cases b) auto

lemma weakAntisym_probCompare: "weakAntisym probCompare"
  unfolding weakAntisym_def
proof (intro allI impI)
  fix x y :: Person
  assume a: "0 \<le> probCompare x y"
  show "probCompare y x \<le> 0"
  proof (cases "fless (fabsf (fsub (probability x) (probability y))) EPSILON")
    case True
    then have "fless (fabsf (fsub (probability y) (probability x))) EPSILON"
      by (simp add: fabsf_fsub_commute)
    then show ?thesis by (simp add: probCompare_def EQUAL_def)
  next
    case False
    then have "fless (probability y) (probability x)"
      using a by (simp add: probCompare_def fgreater_def SMALLER_def split: if_splits)
    then have "\<not> fless (probability x) (probability y)" by (rule fless_asym)
    then show ?thesis
      by (simp add: probCompare_def Let_def fgreater_def EQUAL_def SMALLER_def)
  qed
qed

lemma sint_neg_nonpos:
  assumes "0 \<le> sint (w :: 32 word)"
  shows "sint (- w) \<le> 0"
proof -
  have "sint w < 2 ^ 31" using sint_lt [of w] by simp
  then have "signed_take_bit 31 (- sint w) = - sint w"
    using assms by (intro signed_take_bit_int_eq_self) simp_all
  moreover have "sint (- w) = signed_take_bit 31 (- sint w)"
    by (simp add: sint_word_ariths)
  ultimately show ?thesis using assms by simp
qed

lemma ucast_diff_down:
  "(ucast (a - b :: 64 word) :: 32 word) = ucast a - ucast b"
proof -
  have d: "is_down (ucast :: 64 word \<Rightarrow> 32 word)" by (simp add: is_down)
  show ?thesis using ucast_down_wi [OF d, of "uint a - uint b"] by simp
qed

lemma weakAntisym_idCompare: "weakAntisym idCompare"
  unfolding weakAntisym_def
proof (intro allI impI)
  fix x y :: Person
  assume a: "0 \<le> idCompare x y"
  have "(ucast (id_field y - id_field x) :: 32 word) = - ucast (id_field x - id_field y)"
    by (simp add: ucast_diff_down)
  then show "idCompare y x \<le> 0"
    using a sint_neg_nonpos by (simp add: idCompare_def)
qed

lemma mergeSort_whole:
  assumes "length pl \<le> length dr"
  shows "fst (mergeSort pl dr 0 (length pl) 0 cmp) = msortL cmp pl"
proof -
  have "length (take (length pl) dr) = length pl" using assms by simp
  from mergeSort_app [OF this, of "[]" "[]" "[]" "drop (length pl) dr" cmp]
  show ?thesis by simp
qed

section \<open>Ingestion: lemmas\<close>

lemma fillPerson_fields:
  assumes "strtok line = Some (temp, rest1)"
    and "strtok rest1 = Some (idToken, rest2)"
    and "strtok rest2 = Some (ageToken, rest3)"
  shows "fillPerson calloc_ok strtof line
           = (if calloc_ok (length temp + 1)
              then SUCCESS \<lparr>name = temp, id_field = word_of_int (strtol idToken),
                            age = strtof ageToken, probability = Finite 0\<rparr>
              else FAILURE)"
  using assms by (simp add: fillPerson_def)

lemma readPeopleLoop_defined:
  assumes "\<forall>l\<in>set lines. \<exists>t r1 i r2 a r3.
             strtok l = Some (t, r1) \<and> strtok r1 = Some (i, r2) \<and> strtok r2 = Some (a, r3)"
    and "length peopleList < capacity"
    and "length peopleList + length lines < 2 ^ 30"
  shows "readPeopleLoop env strtof lines peopleList capacity \<noteq> Undefined"
  using assms
proof (induction lines arbitrary: peopleList capacity)
  case Nil
  then show ?case by simp
next
  case (Cons l ls)
  obtain t r1 i r2 a r3 where
    tk: "strtok l = Some (t, r1)" "strtok r1 = Some (i, r2)" "strtok r2 = Some (a, r3)"
    using Cons.prems(1) by auto
  define P where "P = \<lparr>name = t, id_field = word_of_int (strtol i), age = strtof a,
                         probability = Finite 0\<rparr>"
  have f: "fillPerson c strtof l = (if c (length t + 1) then SUCCESS P else FAILURE)" for c
    unfolding P_def by (rule fillPerson_fields [OF tk])
  have rest: "\<forall>l\<in>set ls. \<exists>t r1 i r2 a r3.
             strtok l = Some (t, r1) \<and> strtok r1 = Some (i, r2) \<and> strtok r2 = Some (a, r3)"
    using Cons.prems(1) by simp
  have len: "length (peopleList @ [P]) + length ls < 2 ^ 30" using Cons.prems(3) by simp
  have small: "\<not> INT_MAX < capacity * ALLOC_SIZE" if "length peopleList + 1 = capacity"
    using that Cons.prems(3) by (simp add: INT_MAX_def ALLOC_SIZE_def)
  have a: "readPeopleLoop env strtof ls (peopleList @ [P]) capacity \<noteq> Undefined"
    if "length peopleList + 1 \<noteq> capacity"
    using that Cons.prems(2) by (intro Cons.IH [OF rest _ len]) simp
  have b: "readPeopleLoop env strtof ls (peopleList @ [P]) (capacity * ALLOC_SIZE) \<noteq> Undefined"
    if "length peopleList + 1 = capacity"
    using that by (intro Cons.IH [OF rest _ len]) (simp add: ALLOC_SIZE_def)
  show ?case
    unfolding readPeopleLoop.simps f
    using Cons.prems(2) small a b by (simp add: allocateMore_def)
qed

lemma readPeopleFile_defined:
  assumes "\<forall>l\<in>set lines. \<exists>t r1 i r2 a r3.
             strtok l = Some (t, r1) \<and> strtok r1 = Some (i, r2) \<and> strtok r2 = Some (a, r3)"
    and "length lines < 2 ^ 30"
  shows "readPeopleFile env strtof lines \<noteq> Undefined"
  using readPeopleLoop_defined [OF assms(1), of "[]" ALLOC_SIZE env strtof] assms(2)
  by (simp add: readPeopleFile_def ALLOC_SIZE_def split: run.splits)

section \<open>The lookup engine: lemmas\<close>

lemma binarySearchById_step:
  "binarySearchById pl t s e =
     (if s + c_div2 (e - s) < 0 \<or> int (length pl) \<le> s + c_div2 (e - s) then None
      else if id_field (pl ! nat (s + c_div2 (e - s))) = t then Some (s + c_div2 (e - s))
      else if t < id_field (pl ! nat (s + c_div2 (e - s)))
           then binarySearchById pl t s (s + c_div2 (e - s) - 1)
           else binarySearchById pl t (s + c_div2 (e - s) + 1) e)"
  by (subst binarySearchById.simps) (simp add: Let_def)

lemma sorted_ids_mono:
  assumes "sorted (map id_field pl)" "i \<le> j" "j < length pl"
  shows "id_field (pl ! i) \<le> id_field (pl ! j)"
  using sorted_nth_mono [OF assms(1), of i j] assms(2,3) by simp

lemma binarySearchById_found:
  assumes srt: "sorted (map id_field pl)"
  shows "0 \<le> s \<Longrightarrow> e < int (length pl) \<Longrightarrow> s \<le> int k \<Longrightarrow> int k \<le> e \<Longrightarrow> id_field (pl ! k) = t \<Longrightarrow>
         \<exists>i. binarySearchById pl t s e = Some (int i) \<and> s \<le> int i \<and> int i \<le> e
              \<and> id_field (pl ! i) = t"
proof (induction "nat (e - s)" arbitrary: s e rule: less_induct)
  case less
  define mid where "mid = s + c_div2 (e - s)"
  have se: "s \<le> e" using less.prems by simp
  then have m: "s \<le> mid" "mid \<le> e" by (simp_all add: mid_def c_div2_def)
  have inr: "\<not> (mid < 0 \<or> int (length pl) \<le> mid)" using m less.prems by simp
  have nm: "int (nat mid) = mid" "nat mid < length pl" using m less.prems by simp_all
  show ?case
  proof (cases "id_field (pl ! nat mid) = t")
    case True
    have "binarySearchById pl t s e = Some mid"
      using inr True by (subst binarySearchById_step) (simp add: mid_def)
    then show ?thesis using True m nm by (intro exI [of _ "nat mid"]) simp
  next
    case False
    show ?thesis
    proof (cases "t < id_field (pl ! nat mid)")
      case True
      have "\<not> nat mid \<le> k"
      proof
        assume "nat mid \<le> k"
        then have "id_field (pl ! nat mid) \<le> id_field (pl ! k)"
          using sorted_ids_mono [OF srt, of "nat mid" k] less.prems by simp
        then show False using True less.prems by simp
      qed
      then have k: "int k \<le> mid - 1" using nm by linarith
      have r: "binarySearchById pl t s e = binarySearchById pl t s (mid - 1)"
        using inr False True by (subst binarySearchById_step) (simp add: mid_def)
      have "nat (mid - 1 - s) < nat (e - s)" using m k less.prems by linarith
      from less.hyps [OF this less.prems(1) _ less.prems(3) k less.prems(5)]
      obtain i where "binarySearchById pl t s (mid - 1) = Some (int i)" "s \<le> int i"
        "int i \<le> mid - 1" "id_field (pl ! i) = t"
        using m less.prems by auto
      then show ?thesis using r m by (intro exI [of _ i]) simp
    next
      case gt: False
      have "\<not> k \<le> nat mid"
      proof
        assume "k \<le> nat mid"
        then have "id_field (pl ! k) \<le> id_field (pl ! nat mid)"
          using sorted_ids_mono [OF srt, of k "nat mid"] nm by simp
        then show False using gt False less.prems by simp
      qed
      then have k: "mid + 1 \<le> int k" using nm by linarith
      have r: "binarySearchById pl t s e = binarySearchById pl t (mid + 1) e"
        using inr False gt by (subst binarySearchById_step) (simp add: mid_def)
      have "nat (e - (mid + 1)) < nat (e - s)" using m k less.prems by linarith
      from less.hyps [OF this _ less.prems(2) k less.prems(4) less.prems(5)]
      obtain i where "binarySearchById pl t (mid + 1) e = Some (int i)" "mid + 1 \<le> int i"
        "int i \<le> e" "id_field (pl ! i) = t"
        using m less.prems by auto
      then show ?thesis using r m by (intro exI [of _ i]) simp
    qed
  qed
qed

lemma binarySearchById_present:
  assumes "sorted (map id_field peopleList)"
    and "idToFind \<in> id_field ` set peopleList"
  shows "\<exists>i. binarySearchById peopleList idToFind 0 (int (length peopleList) - 1) = Some (int i)
             \<and> i < length peopleList \<and> id_field (peopleList ! i) = idToFind"
proof -
  obtain k where k: "k < length peopleList" "id_field (peopleList ! k) = idToFind"
    using assms(2) by (auto simp: in_set_conv_nth)
  from binarySearchById_found [OF assms(1), of 0 "int (length peopleList) - 1" k idToFind]
  obtain i where "binarySearchById peopleList idToFind 0 (int (length peopleList) - 1) = Some (int i)"
    "int i \<le> int (length peopleList) - 1" "id_field (peopleList ! i) = idToFind"
    using k by auto
  then show ?thesis by (intro exI [of _ i]) simp
qed

lemma same_ids_nth:
  assumes "map id_field pl' = map id_field pl" "i < length pl"
  shows "id_field (pl' ! i) = id_field (pl ! i)" "length pl' = length pl"
proof -
  show l: "length pl' = length pl" using assms(1) by (metis length_map)
  have "map id_field pl' ! i = map id_field pl ! i" using assms(1) by simp
  then show "id_field (pl' ! i) = id_field (pl ! i)" using assms(2) l by simp
qed

lemma binarySearchById_Some:
  assumes a: "binarySearchById pl0 t0 s0 e0 = Some r0"
  shows "0 \<le> r0 \<and> r0 < int (length pl0) \<and> id_field (pl0 ! nat r0) = t0
   \<and> (\<forall>pl'. map id_field pl' = map id_field pl0 \<longrightarrow> binarySearchById pl' t0 s0 e0 = Some r0)"
proof (rule binarySearchById.raw_induct [OF _ a])
  fix f pl t s e r
  assume IH: "\<And>pl t s e r. f pl t s e = Some r \<Longrightarrow>
     0 \<le> r \<and> r < int (length pl) \<and> id_field (pl ! nat r) = t
     \<and> (\<forall>pl'. map id_field pl' = map id_field pl \<longrightarrow> binarySearchById pl' t s e = Some r)"
    and hyp: "(let mid = s + c_div2 (e - s)
      in if mid < 0 \<or> int (length pl) \<le> mid then None
         else if id_field (pl ! nat mid) = t then Some mid
         else if t < id_field (pl ! nat mid) then f pl t s (mid - 1)
         else f pl t (mid + 1) e) = Some r"
  define mid where "mid = s + c_div2 (e - s)"
  have body: "(if mid < 0 \<or> int (length pl) \<le> mid then None
         else if id_field (pl ! nat mid) = t then Some mid
              else if t < id_field (pl ! nat mid)
                   then f pl t s (mid - 1)
                   else f pl t (mid + 1) e) = Some r"
    using hyp unfolding mid_def Let_def .
  then have inr: "\<not> (mid < 0 \<or> int (length pl) \<le> mid)" by (auto split: if_splits)
  then have nm: "nat mid < length pl" by linarith
  have step: "binarySearchById pl' t s e =
        (if id_field (pl' ! nat mid) = t then Some mid
         else if t < id_field (pl' ! nat mid) then binarySearchById pl' t s (mid - 1)
         else binarySearchById pl' t (mid + 1) e)"
    if "map id_field pl' = map id_field pl" for pl'
    using inr same_ids_nth(2) [OF that nm]
    by (subst binarySearchById_step) (simp add: mid_def)
  show "0 \<le> r \<and> r < int (length pl) \<and> id_field (pl ! nat r) = t
     \<and> (\<forall>pl'. map id_field pl' = map id_field pl \<longrightarrow> binarySearchById pl' t s e = Some r)"
  proof (cases "id_field (pl ! nat mid) = t")
    case True
    then have r: "r = mid" using body inr by simp
    have "binarySearchById pl' t s e = Some r" if "map id_field pl' = map id_field pl" for pl'
      using step [OF that] same_ids_nth(1) [OF that nm] True r by simp
    then show ?thesis using True inr r by simp
  next
    case False
    show ?thesis
    proof (cases "t < id_field (pl ! nat mid)")
      case True
      then have "f pl t s (mid - 1) = Some r" using body inr False by simp
      from IH [OF this] have p: "0 \<le> r" "r < int (length pl)" "id_field (pl ! nat r) = t"
        and q: "\<And>pl'. map id_field pl' = map id_field pl \<Longrightarrow> binarySearchById pl' t s (mid - 1) = Some r"
        by simp_all
      have "binarySearchById pl' t s e = Some r" if "map id_field pl' = map id_field pl" for pl'
        using step [OF that] same_ids_nth(1) [OF that nm] False True q [OF that] by simp
      then show ?thesis using p by simp
    next
      case gt: False
      then have "f pl t (mid + 1) e = Some r" using body inr False by simp
      from IH [OF this] have p: "0 \<le> r" "r < int (length pl)" "id_field (pl ! nat r) = t"
        and q: "\<And>pl'. map id_field pl' = map id_field pl \<Longrightarrow> binarySearchById pl' t (mid + 1) e = Some r"
        by simp_all
      have "binarySearchById pl' t s e = Some r" if "map id_field pl' = map id_field pl" for pl'
        using step [OF that] same_ids_nth(1) [OF that nm] False gt q [OF that] by simp
      then show ?thesis using p by simp
    qed
  qed
qed

section \<open>The propagation engine: lemmas\<close>

lemma probUpdater_fields:
  assumes "meetingFields sf line = Some (a, b, d, t)"
  shows "probUpdater sf pl line =
     (case binarySearchById pl a 0 (int (length pl) - 1) of None \<Rightarrow> None | Some i \<Rightarrow>
      case binarySearchById pl b 0 (int (length pl) - 1) of None \<Rightarrow> None | Some j \<Rightarrow>
        Some (setProbability pl j (fmul (probability (pl ! nat i)) (crna d t))))"
  using assms
  by (auto simp: meetingFields_def probUpdater_def setProbability_def Let_def
           split: Option.bind_splits prod.splits option.splits)

lemma probUpdater_step:
  assumes "meetingFields sf line = Some (a, b, d, t)"
    and "binarySearchById pl a 0 (int (length pl) - 1) = Some i"
    and "binarySearchById pl b 0 (int (length pl) - 1) = Some j"
  shows "probUpdater sf pl line
           = Some (setProbability pl j (fmul (probability (pl ! nat i)) (crna d t)))"
  unfolding probUpdater_fields [OF assms(1)] using assms(2,3) by simp

lemma readMeetingsFile_step:
  assumes "binarySearchById pl (word_of_int (strtol line)) 0 (int (length pl) - 1) = Some i"
  shows "readMeetingsFile sf (line # rest) pl = meetingsLoop sf rest (setProbability pl i (Finite 1))"
  by (simp add: readMeetingsFile_def setProbability_def assms)

lemma probUpdater_Some_fields:
  "probUpdater sf pl line = Some pl' \<Longrightarrow> \<exists>a b d t. meetingFields sf line = Some (a, b, d, t)"
  by (auto simp: meetingFields_def probUpdater_def Let_def split: Option.bind_splits prod.splits)

lemma ids_setProbability [simp]: "map id_field (setProbability pl j x) = map id_field pl"
  unfolding setProbability_def by (simp add: map_update) (metis list_update_id map_update)

lemma length_setProbability [simp]: "length (setProbability pl j x) = length pl"
  by (simp add: setProbability_def)

lemma probUpdater_ids:
  assumes "probUpdater sf pl line = Some pl'"
  shows "map id_field pl' = map id_field pl"
proof -
  obtain a b d t where f: "meetingFields sf line = Some (a, b, d, t)"
    using probUpdater_Some_fields [OF assms] by blast
  show ?thesis using assms unfolding probUpdater_fields [OF f]
    by (auto split: option.splits)
qed

lemma meetingsLoop_append:
  "meetingsLoop sf (xs @ ys) pl =
     (case meetingsLoop sf xs pl of None \<Rightarrow> None | Some m \<Rightarrow> meetingsLoop sf ys m)"
  by (induction xs arbitrary: pl) (auto split: option.splits)

lemma meetingsLoop_ids:
  "meetingsLoop sf ls pl = Some pl' \<Longrightarrow> map id_field pl' = map id_field pl"
proof (induction ls arbitrary: pl)
  case Nil
  then show ?case by simp
next
  case (Cons l ls)
  then show ?case by (auto split: option.splits dest!: probUpdater_ids)
qed

lemma resolvable_ids:
  "map id_field pl' = map id_field pl \<Longrightarrow> resolvable sf pl' l = resolvable sf pl l"
  by (simp add: resolvable_def split: option.splits prod.splits)

lemma probUpdater_resolved:
  assumes srt: "sorted (map id_field pl)" and res: "resolvable sf pl line"
  shows "\<exists>a b d t i j. meetingFields sf line = Some (a, b, d, t)
         \<and> binarySearchById pl a 0 (int (length pl) - 1) = Some (int i)
         \<and> binarySearchById pl b 0 (int (length pl) - 1) = Some (int j)
         \<and> i < length pl \<and> j < length pl \<and> id_field (pl ! i) = a \<and> id_field (pl ! j) = b
         \<and> probUpdater sf pl line
             = Some (setProbability pl (int j) (fmul (probability (pl ! i)) (crna d t)))"
proof -
  obtain a b d t where f: "meetingFields sf line = Some (a, b, d, t)"
    and a: "a \<in> id_field ` set pl" and b: "b \<in> id_field ` set pl"
    using res by (auto simp: resolvable_def split: option.splits)
  obtain i where i: "binarySearchById pl a 0 (int (length pl) - 1) = Some (int i)"
    "i < length pl" "id_field (pl ! i) = a"
    using binarySearchById_present [OF srt a] by blast
  obtain j where j: "binarySearchById pl b 0 (int (length pl) - 1) = Some (int j)"
    "j < length pl" "id_field (pl ! j) = b"
    using binarySearchById_present [OF srt b] by blast
  have "probUpdater sf pl line
          = Some (setProbability pl (int j) (fmul (probability (pl ! i)) (crna d t)))"
    unfolding probUpdater_fields [OF f] using i j by simp
  then show ?thesis using f i j by blast
qed

lemma meetingsLoop_total:
  "sorted (map id_field pl) \<Longrightarrow> \<forall>l\<in>set ls. resolvable sf pl l \<Longrightarrow>
   \<exists>pl'. meetingsLoop sf ls pl = Some pl'"
proof (induction ls arbitrary: pl)
  case Nil
  then show ?case by simp
next
  case (Cons l ls)
  have "resolvable sf pl l" using Cons.prems by simp
  from probUpdater_resolved [OF Cons.prems(1) this]
  obtain pl1 where p: "probUpdater sf pl l = Some pl1" by blast
  have ids: "map id_field pl1 = map id_field pl" using probUpdater_ids [OF p] .
  have "\<forall>l\<in>set ls. resolvable sf pl1 l" using Cons.prems(2) resolvable_ids [OF ids] by simp
  moreover have "sorted (map id_field pl1)" using Cons.prems(1) ids by simp
  ultimately obtain pl' where "meetingsLoop sf ls pl1 = Some pl'"
    using Cons.IH by blast
  then show ?case using p by simp
qed

lemma probUpdater_other:
  assumes p: "probUpdater sf pl line = Some pl'"
    and n: "\<not> infectedIs sf (id_field (pl ! k)) line"
  shows "pl' ! k = pl ! k"
proof -
  obtain a b d t where f: "meetingFields sf line = Some (a, b, d, t)"
    using probUpdater_Some_fields [OF p] by blast
  have nb: "b \<noteq> id_field (pl ! k)" using n f by (simp add: infectedIs_def)
  obtain i j where j: "binarySearchById pl b 0 (int (length pl) - 1) = Some j"
    and pl': "pl' = setProbability pl j (fmul (probability (pl ! nat i)) (crna d t))"
    using p unfolding probUpdater_fields [OF f] by (auto split: option.splits)
  have "id_field (pl ! nat j) = b" using binarySearchById_Some [OF j] by simp
  then have "nat j \<noteq> k" using nb by auto
  then show ?thesis by (simp add: pl' setProbability_def)
qed

lemma meetingsLoop_other:
  "meetingsLoop sf ls pl = Some pl' \<Longrightarrow> \<forall>l\<in>set ls. \<not> infectedIs sf (id_field (pl ! k)) l \<Longrightarrow>
   k < length pl \<Longrightarrow> pl' ! k = pl ! k"
proof (induction ls arbitrary: pl)
  case Nil
  then show ?case by simp
next
  case (Cons l ls)
  obtain pl1 where p: "probUpdater sf pl l = Some pl1" and r: "meetingsLoop sf ls pl1 = Some pl'"
    using Cons.prems(1) by (auto split: option.splits)
  have ids: "map id_field pl1 = map id_field pl" using probUpdater_ids [OF p] .
  have e: "pl1 ! k = pl ! k" using probUpdater_other [OF p] Cons.prems(2) by simp
  have "length pl1 = length pl" using ids by (metis length_map)
  then have "pl' ! k = pl1 ! k"
    using Cons.IH [OF r] Cons.prems(2,3) e by simp
  then show ?case using e by simp
qed

lemma zero_distance_not_finite:
  assumes "isZero d"
  shows "fmul p (fdiv (fmul t (Finite 1)) (fmul d (Finite 30))) \<in> {PosInf, NegInf, NaN}"
proof -
  have z: "isZero (fmul d (Finite 30))" "fmul d (Finite 30) \<noteq> NaN"
    using assms by (auto simp: isZero_def fmul_def isInf_def round32_def signedZero_def)
  then have "fdiv x (fmul d (Finite 30)) \<in> {PosInf, NegInf, NaN}" for x
    by (auto simp: fdiv_def signedInf_def isInf_def)
  then have "fdiv (fmul t (Finite 1)) (fmul d (Finite 30)) \<in> {PosInf, NegInf, NaN}" .
  moreover have "fmul p y \<in> {PosInf, NegInf, NaN}" if "y \<in> {PosInf, NegInf, NaN}" for y
    using that by (auto simp: fmul_def isInf_def signedInf_def)
  ultimately show ?thesis by blast
qed

text \<open>The probabilities \<open>readMeetingsFile\<close> stores are values of the type \<open>float\<close>.\<close>

lemma setProbability_isFloat32:
  assumes "\<forall>p\<in>set pl. isFloat32 (probability p)" and "isFloat32 x"
  shows "\<forall>p\<in>set (setProbability pl j x). isFloat32 (probability p)"
proof
  fix p assume "p \<in> set (setProbability pl j x)"
  then have "p \<in> insert ((pl ! nat j)\<lparr>probability := x\<rparr>) (set pl)"
    unfolding setProbability_def using set_update_subset_insert by fastforce
  then show "isFloat32 (probability p)" using assms by auto
qed

lemma probUpdater_isFloat32:
  assumes p: "probUpdater sf pl line = Some pl'"
    and f: "\<forall>p\<in>set pl. isFloat32 (probability p)"
  shows "\<forall>p\<in>set pl'. isFloat32 (probability p)"
proof -
  obtain a b d t where m: "meetingFields sf line = Some (a, b, d, t)"
    using probUpdater_Some_fields [OF p] by blast
  obtain i j where "pl' = setProbability pl j (fmul (probability (pl ! nat i)) (crna d t))"
    using p unfolding probUpdater_fields [OF m] by (auto split: option.splits)
  then show ?thesis using setProbability_isFloat32 [OF f isFloat32_fmul] by simp
qed

lemma meetingsLoop_isFloat32:
  "meetingsLoop sf ls pl = Some pl' \<Longrightarrow> \<forall>p\<in>set pl. isFloat32 (probability p) \<Longrightarrow>
   \<forall>p\<in>set pl'. isFloat32 (probability p)"
proof (induction ls arbitrary: pl)
  case Nil
  then show ?case by simp
next
  case (Cons l ls)
  obtain pl1 where p: "probUpdater sf pl l = Some pl1" and r: "meetingsLoop sf ls pl1 = Some pl'"
    using Cons.prems(1) by (auto split: option.splits)
  show ?case using Cons.IH [OF r probUpdater_isFloat32 [OF p Cons.prems(2)]] .
qed

lemma readMeetingsFile_isFloat32:
  assumes r: "readMeetingsFile sf lines pl = Some pl'"
    and f: "\<forall>p\<in>set pl. isFloat32 (probability p)"
  shows "\<forall>p\<in>set pl'. isFloat32 (probability p)"
proof (cases lines)
  case Nil
  then show ?thesis using r f by (simp add: readMeetingsFile_def)
next
  case (Cons line rest)
  obtain i where "meetingsLoop sf rest (setProbability pl i (Finite 1)) = Some pl'"
    using r unfolding Cons
    by (auto simp: readMeetingsFile_def setProbability_def split: Option.bind_splits)
  moreover have "isFloat32 (Finite 1)" by (simp add: isFloat32_def float_eval)
  ultimately show ?thesis
    using meetingsLoop_isFloat32 setProbability_isFloat32 [OF f] by blast
qed

section \<open>The reporter: lemmas\<close>

lemma writeLoop_eq: "n \<le> length pl \<Longrightarrow> writeLoop pl n = map outputLine (rev (take n pl))"
  by (induction n) (simp_all add: take_Suc_conv_app_nth)

lemma writeOutput_eq: "writeOutput pl = map outputLine (rev pl)"
  by (simp add: writeOutput_def writeLoop_eq)

lemma outputLine_args: "\<exists>fmt. outputLine p = Fprintf fmt (name p) (id_field p)
   \<and> fmt \<in> {MEDICAL_SUPERVISION_THRESHOLD_MSG, REGULAR_QUARANTINE_MSG, CLEAN_MSG}"
  by (simp add: outputLine_def)

lemma nondecreasing_nth:
  "nondecreasing cmp xs \<Longrightarrow> Suc i < length xs \<Longrightarrow> \<not> 0 < cmp (xs ! i) (xs ! Suc i)"
proof (induction cmp xs arbitrary: i rule: nondecreasing.induct)
  case (3 cmp x y zs)
  then show ?case by (cases i) simp_all
qed simp_all

lemma MEDICAL_SUPERVISION_THRESHOLD_value:
  "MEDICAL_SUPERVISION_THRESHOLD = Finite (10066330 / 2 ^ 25)"
  by (simp add: MEDICAL_SUPERVISION_THRESHOLD_def round32_def roundMag_def minSubnormal_def
        round_even_def signedZero_def signedInf_def eval_nat_numeral Let_def)

lemma REGULAR_QUARANTINE_THRESHOLD_value:
  "REGULAR_QUARANTINE_THRESHOLD = Finite (13421773 / 2 ^ 27)"
  by (simp add: REGULAR_QUARANTINE_THRESHOLD_def round32_def roundMag_def minSubnormal_def
        round_even_def signedZero_def signedInf_def eval_nat_numeral Let_def)

lemma not_near:
  assumes "minSubnormal * 2 ^ K \<le> \<bar>x\<bar>"
    and "4835703278458517 / 2 ^ 82 < minSubnormal * 2 ^ K"
  shows "\<not> fless (fabsf (round32 s x)) EPSILON"
proof -
  have "x \<noteq> 0" using assms minSubnormal_pos by auto
  moreover have "minSubnormal * 2 ^ K \<le> roundMag \<bar>x\<bar>" using assms(1) by (rule roundMag_lower)
  ultimately show ?thesis using assms(2) by (simp add: fabsf_round32 EPSILON_def)
qed

lemma threshold_gap:
  assumes f: "isFloat32 (Finite r)"
    and u: "u = minSubnormal * 2 ^ Suc K" and K: "Suc K \<le> 253"
    and lo: "lo = 2 ^ 24 * (minSubnormal * 2 ^ K)"
    and r: "r < of_int M * u"
    and b1: "lo < of_int M * u - u" and b2: "of_int M * u < 2 * lo"
  shows "r \<le> of_int M * u - u"
proof (cases "r < lo")
  case True
  then show ?thesis using b1 by simp
next
  case False
  have lopos: "0 < lo" using minSubnormal_pos by (simp add: lo)
  have upos: "0 < u" using minSubnormal_pos by (simp add: u)
  have hi: "r < 2 ^ 24 * (minSubnormal * 2 ^ Suc K)" using r b2 by (simp add: lo)
  have "2 ^ 24 * (minSubnormal * 2 ^ K) \<le> r" using False by (simp add: lo)
  from isFloat32_multiple [OF f _ this hi K]
  obtain m :: int where m: "r = of_int m * u" using False lopos by (auto simp: u)
  then have "of_int m * u < of_int M * u" using r by simp
  then have "m < M" using upos by simp
  then have "m \<le> M - 1" by simp
  then have "of_int m * u \<le> of_int (M - 1) * u"
    using upos by (intro mult_right_mono) simp_all
  then show ?thesis using m by (simp add: algebra_simps)
qed

lemma tier_condition:
  assumes f: "isFloat32 (Finite r)"
    and u: "u = minSubnormal * 2 ^ Suc K" and K: "Suc K \<le> 253"
    and lo: "lo = 2 ^ 24 * (minSubnormal * 2 ^ K)"
    and b1: "lo < of_int M * u - u" and b2: "of_int M * u < 2 * lo"
    and e: "4835703278458517 / 2 ^ 82 < u"
    and d1: "dec \<le> of_int M * u" and d2: "1 / 10 ^ 9 \<le> dec - (of_int M * u - u)"
  shows "(fgeq (Finite r) (Finite (of_int M * u))
           \<or> fless (fabsf (fsub (Finite r) (Finite (of_int M * u)))) EPSILON)
         = (dec \<le> r \<or> \<bar>r - dec\<bar> < 1 / 10 ^ 9)"
proof (cases "r < of_int M * u")
  case False
  then show ?thesis using d1 by (simp add: fgeq_def)
next
  case True
  have g: "r \<le> of_int M * u - u" using threshold_gap [OF f u K lo True b1 b2] .
  have h1: "minSubnormal * 2 ^ Suc K \<le> \<bar>r - of_int M * u\<bar>" using g by (simp add: u)
  have h2: "4835703278458517 / 2 ^ 82 < minSubnormal * 2 ^ Suc K" using e unfolding u .
  have "\<not> fless (fabsf (round32 s (r - of_int M * u))) EPSILON" for s
    using not_near [OF h1 h2] .
  then have "\<not> fless (fabsf (fsub (Finite r) (Finite (of_int M * u)))) EPSILON"
    by (simp add: fsub_def isInf_def)
  moreover have "\<not> fgeq (Finite r) (Finite (of_int M * u))" using True by (simp add: fgeq_def)
  moreover have "\<not> (dec \<le> r \<or> \<bar>r - dec\<bar> < 1 / 10 ^ 9)" using g d2 by auto
  ultimately show ?thesis by blast
qed

lemma tier_medical:
  assumes "isFloat32 (Finite r)"
  shows "(fgeq (Finite r) MEDICAL_SUPERVISION_THRESHOLD
           \<or> fless (fabsf (fsub (Finite r) MEDICAL_SUPERVISION_THRESHOLD)) EPSILON)
         = (3 / 10 \<le> r \<or> \<bar>r - 3 / 10\<bar> < 1 / 10 ^ 9)"
proof -
  have t: "(10066330 / 2 ^ 25 :: real) = of_int 10066330 * (minSubnormal * 2 ^ Suc 123)"
    by (simp add: minSubnormal_def)
  show ?thesis
    unfolding MEDICAL_SUPERVISION_THRESHOLD_value t
    by (rule tier_condition [OF assms refl _ refl]) (simp_all add: minSubnormal_def)
qed

lemma tier_quarantine:
  assumes "isFloat32 (Finite r)"
  shows "(fgeq (Finite r) REGULAR_QUARANTINE_THRESHOLD
           \<or> fless (fabsf (fsub (Finite r) REGULAR_QUARANTINE_THRESHOLD)) EPSILON)
         = (1 / 10 \<le> r \<or> \<bar>r - 1 / 10\<bar> < 1 / 10 ^ 9)"
proof -
  have t: "(13421773 / 2 ^ 27 :: real) = of_int 13421773 * (minSubnormal * 2 ^ Suc 121)"
    by (simp add: minSubnormal_def)
  show ?thesis
    unfolding REGULAR_QUARANTINE_THRESHOLD_value t
    by (rule tier_condition [OF assms refl _ refl]) (simp_all add: minSubnormal_def)
qed

lemma tier_special:
  "\<not> fgeq NegZero MEDICAL_SUPERVISION_THRESHOLD"
  "\<not> fless (fabsf (fsub NegZero MEDICAL_SUPERVISION_THRESHOLD)) EPSILON"
  "\<not> fgeq NegZero REGULAR_QUARANTINE_THRESHOLD"
  "\<not> fless (fabsf (fsub NegZero REGULAR_QUARANTINE_THRESHOLD)) EPSILON"
proof -
  have a: "minSubnormal * 2 ^ 122 \<le> \<bar>0 - 10066330 / 2 ^ 25\<bar>"
    "minSubnormal * 2 ^ 122 \<le> \<bar>0 - 13421773 / 2 ^ 27\<bar>"
    and e: "4835703278458517 / 2 ^ 82 < minSubnormal * 2 ^ 122"
    by (simp_all add: minSubnormal_def)
  show "\<not> fgeq NegZero MEDICAL_SUPERVISION_THRESHOLD" "\<not> fgeq NegZero REGULAR_QUARANTINE_THRESHOLD"
    by (simp_all add: MEDICAL_SUPERVISION_THRESHOLD_value REGULAR_QUARANTINE_THRESHOLD_value fgeq_def)
  show "\<not> fless (fabsf (fsub NegZero MEDICAL_SUPERVISION_THRESHOLD)) EPSILON"
    using not_near [OF a(1) e]
    by (simp add: MEDICAL_SUPERVISION_THRESHOLD_value fsub_def isInf_def)
  show "\<not> fless (fabsf (fsub NegZero REGULAR_QUARANTINE_THRESHOLD)) EPSILON"
    using not_near [OF a(2) e]
    by (simp add: REGULAR_QUARANTINE_THRESHOLD_value fsub_def isInf_def)
qed

section \<open>Properties of the program\<close>

subsection \<open>C1: the last meeting of an infected person decides the probability\<close>

text \<open>
  C1. The array is sorted by identifier, every line of the meetings has its four fields
  and both of its identifiers are in the array. Then the loop over the lines returns.
  Take one of the lines, with the fields infector, infected, distance and time, such that
  no line behind it has the same infected person: in the final array the probability of
  that person is the probability the infector had when the line was read, times
  \<open>(time * 1.0) / (distance * 30.0)\<close>, where the two products, the quotient and the last
  product are each rounded to \<open>float\<close> as the code computes them. The line has overwritten
  whatever the lines before it had stored, and the indices are those the binary search
  returns.
\<close>

theorem last_meeting_decides_probability:
  assumes srt: "sorted (map id_field peopleList)"
    and res: "\<forall>l\<in>set (before @ line # after). resolvable strtof peopleList l"
    and f: "meetingFields strtof line = Some (infectorId, infectedId, distance, time)"
    and last: "\<forall>l\<in>set after. \<not> infectedIs strtof infectedId l"
  shows "\<exists>mid final i j.
           meetingsLoop strtof before peopleList = Some mid
         \<and> meetingsLoop strtof (before @ line # after) peopleList = Some final
         \<and> binarySearchById mid infectorId 0 (int (length mid) - 1) = Some (int i)
         \<and> binarySearchById mid infectedId 0 (int (length mid) - 1) = Some (int j)
         \<and> i < length peopleList \<and> id_field (peopleList ! i) = infectorId
         \<and> j < length peopleList \<and> id_field (peopleList ! j) = infectedId
         \<and> probability (final ! j)
             = fmul (probability (mid ! i))
                 (fdiv (fmul time (Finite 1)) (fmul distance (Finite 30)))"
proof -
  have "\<forall>l\<in>set before. resolvable strtof peopleList l" using res by simp
  from meetingsLoop_total [OF srt this]
  obtain mid where mid: "meetingsLoop strtof before peopleList = Some mid" by blast
  have ids: "map id_field mid = map id_field peopleList" using meetingsLoop_ids [OF mid] .
  then have len: "length mid = length peopleList" by (metis length_map)
  have srt': "sorted (map id_field mid)" using srt ids by simp
  have "resolvable strtof mid line" using res resolvable_ids [OF ids] by simp
  from probUpdater_resolved [OF srt' this] f
  obtain i j where i: "binarySearchById mid infectorId 0 (int (length mid) - 1) = Some (int i)"
    and j: "binarySearchById mid infectedId 0 (int (length mid) - 1) = Some (int j)"
    and ij: "i < length mid" "j < length mid" "id_field (mid ! i) = infectorId"
      "id_field (mid ! j) = infectedId"
    and upd: "probUpdater strtof mid line
             = Some (setProbability mid (int j) (fmul (probability (mid ! i)) (crna distance time)))"
    by auto
  define m1 where "m1 = setProbability mid (int j) (fmul (probability (mid ! i)) (crna distance time))"
  have ids1: "map id_field m1 = map id_field peopleList" using ids by (simp add: m1_def)
  then have len1: "length m1 = length peopleList" by (metis length_map)
  have "\<forall>l\<in>set after. resolvable strtof m1 l" using res resolvable_ids [OF ids1] by simp
  moreover have "sorted (map id_field m1)" using srt ids1 by simp
  ultimately obtain final where fin: "meetingsLoop strtof after m1 = Some final"
    using meetingsLoop_total by blast
  have whole: "meetingsLoop strtof (before @ line # after) peopleList = Some final"
    using mid upd fin by (simp add: meetingsLoop_append m1_def)
  have idj: "id_field (m1 ! j) = infectedId"
    using same_ids_nth(1) [OF ids1, of j] same_ids_nth(1) [OF ids, of j] ij len by simp
  have "final ! j = m1 ! j"
    using meetingsLoop_other [OF fin, of j] last idj ij len len1 by simp
  then have "probability (final ! j) = fmul (probability (mid ! i)) (crna distance time)"
    using ij by (simp add: m1_def setProbability_def)
  moreover have "id_field (peopleList ! i) = infectorId" "id_field (peopleList ! j) = infectedId"
    using same_ids_nth(1) [OF ids, of i] same_ids_nth(1) [OF ids, of j] ij len by simp_all
  ultimately show ?thesis
    using mid whole i j ij len
    by (intro exI [of _ mid] exI [of _ final] exI [of _ i] exI [of _ j])
       (simp add: crna_def MIN_DISTANCE_def MAX_TIME_def)
qed

theorem last_meeting_decides_probability_witness:
  "sorted (map id_field [alice\<lparr>probability := Finite 1\<rparr>, bob, carol])
   \<and> resolvable strtof_decimal [alice\<lparr>probability := Finite 1\<rparr>, bob, carol] ''1 2 1.0 30.0\<newline>''
   \<and> resolvable strtof_decimal [alice\<lparr>probability := Finite 1\<rparr>, bob, carol] ''1 2 3.0 1.0\<newline>''
   \<and> resolvable strtof_decimal [alice\<lparr>probability := Finite 1\<rparr>, bob, carol] ''1 3 1.0 15.0\<newline>''
   \<and> meetingFields strtof_decimal ''1 2 3.0 1.0\<newline>'' = Some (1, 2, Finite 3, Finite 1)
   \<and> \<not> infectedIs strtof_decimal 2 ''1 3 1.0 15.0\<newline>''
   \<and> meetingsLoop strtof_decimal [''1 2 1.0 30.0\<newline>''] [alice\<lparr>probability := Finite 1\<rparr>, bob, carol]
       = Some [alice\<lparr>probability := Finite 1\<rparr>, bob\<lparr>probability := Finite 1\<rparr>, carol]
   \<and> meetingsLoop strtof_decimal
         ([''1 2 1.0 30.0\<newline>''] @ ''1 2 3.0 1.0\<newline>'' # [''1 3 1.0 15.0\<newline>''])
         [alice\<lparr>probability := Finite 1\<rparr>, bob, carol]
       = Some [alice\<lparr>probability := Finite 1\<rparr>,
               bob\<lparr>probability := Finite (11930465 / 1073741824)\<rparr>,
               carol\<lparr>probability := Finite (1 / 2)\<rparr>]
   \<and> fmul (Finite 1) (fdiv (fmul (Finite 1) (Finite 1)) (fmul (Finite 3) (Finite 30)))
       = Finite (11930465 / 1073741824)
   \<and> (\<exists>mid final i j.
           meetingsLoop strtof_decimal [''1 2 1.0 30.0\<newline>'']
             [alice\<lparr>probability := Finite 1\<rparr>, bob, carol] = Some mid
         \<and> meetingsLoop strtof_decimal
              ([''1 2 1.0 30.0\<newline>''] @ ''1 2 3.0 1.0\<newline>'' # [''1 3 1.0 15.0\<newline>''])
              [alice\<lparr>probability := Finite 1\<rparr>, bob, carol] = Some final
         \<and> binarySearchById mid 1 0 (int (length mid) - 1) = Some (int i)
         \<and> binarySearchById mid 2 0 (int (length mid) - 1) = Some (int j)
         \<and> i < length [alice\<lparr>probability := Finite 1\<rparr>, bob, carol]
         \<and> id_field ([alice\<lparr>probability := Finite 1\<rparr>, bob, carol] ! i) = 1
         \<and> j < length [alice\<lparr>probability := Finite 1\<rparr>, bob, carol]
         \<and> id_field ([alice\<lparr>probability := Finite 1\<rparr>, bob, carol] ! j) = 2
         \<and> probability (final ! j)
             = fmul (probability (mid ! i)) (fdiv (fmul (Finite 1) (Finite 1)) (fmul (Finite 3) (Finite 30))))"
proof -
  let ?pl = "[alice\<lparr>probability := Finite 1\<rparr>, bob, carol]"
  let ?pl1 = "[alice\<lparr>probability := Finite 1\<rparr>, bob\<lparr>probability := Finite 1\<rparr>, carol]"
  let ?pl2 = "[alice\<lparr>probability := Finite 1\<rparr>,
               bob\<lparr>probability := Finite (11930465 / 1073741824)\<rparr>, carol]"
  let ?pl3 = "[alice\<lparr>probability := Finite 1\<rparr>,
               bob\<lparr>probability := Finite (11930465 / 1073741824)\<rparr>,
               carol\<lparr>probability := Finite (1 / 2)\<rparr>]"
  have s: "sorted (map id_field ?pl)" by (simp add: alice_def bob_def carol_def)
  have f1: "meetingFields strtof_decimal ''1 2 1.0 30.0\<newline>'' = Some (1, 2, Finite 1, Finite 30)"
    and f2: "meetingFields strtof_decimal ''1 2 3.0 1.0\<newline>'' = Some (1, 2, Finite 3, Finite 1)"
    and f3: "meetingFields strtof_decimal ''1 3 1.0 15.0\<newline>'' = Some (1, 3, Finite 1, Finite 15)"
    by (simp_all add: meetingFields_def parse_eval float_eval)
  have r1: "resolvable strtof_decimal ?pl ''1 2 1.0 30.0\<newline>''"
    and r2: "resolvable strtof_decimal ?pl ''1 2 3.0 1.0\<newline>''"
    and r3: "resolvable strtof_decimal ?pl ''1 3 1.0 15.0\<newline>''"
    by (simp_all add: resolvable_def f1 f2 f3 alice_def bob_def carol_def)
  have n: "\<not> infectedIs strtof_decimal 2 ''1 3 1.0 15.0\<newline>''"
    by (simp add: infectedIs_def f3)
  have c1: "crna (Finite 1) (Finite 30) = Finite 1"
    and c2: "crna (Finite 3) (Finite 1) = Finite (11930465 / 1073741824)"
    and c3: "crna (Finite 1) (Finite 15) = Finite (1 / 2)"
    by (simp_all add: crna_def MIN_DISTANCE_def MAX_TIME_def float_eval)
  have m: "fmul (Finite 1) (Finite 1) = Finite 1"
    "fmul (Finite 1) (Finite (11930465 / 1073741824)) = Finite (11930465 / 1073741824)"
    "fmul (Finite 1) (Finite (1 / 2)) = Finite (1 / 2)"
    by (simp_all add: float_eval)
  have b: "binarySearchById ?pl 1 0 (int (length ?pl) - 1) = Some 0"
    "binarySearchById ?pl 2 0 (int (length ?pl) - 1) = Some 1"
    "binarySearchById ?pl1 1 0 (int (length ?pl1) - 1) = Some 0"
    "binarySearchById ?pl1 2 0 (int (length ?pl1) - 1) = Some 1"
    "binarySearchById ?pl2 1 0 (int (length ?pl2) - 1) = Some 0"
    "binarySearchById ?pl2 3 0 (int (length ?pl2) - 1) = Some 2"
    by code_simp+
  have u1: "probUpdater strtof_decimal ?pl ''1 2 1.0 30.0\<newline>'' = Some ?pl1"
    unfolding probUpdater_step [OF f1 b(1) b(2)] by (simp add: setProbability_def c1 m)
  have u2: "probUpdater strtof_decimal ?pl1 ''1 2 3.0 1.0\<newline>'' = Some ?pl2"
    unfolding probUpdater_step [OF f2 b(3) b(4)] by (simp add: setProbability_def c2 m)
  have u3: "probUpdater strtof_decimal ?pl2 ''1 3 1.0 15.0\<newline>'' = Some ?pl3"
    unfolding probUpdater_step [OF f3 b(5) b(6)] by (simp add: setProbability_def c3 m)
  have m1: "meetingsLoop strtof_decimal [''1 2 1.0 30.0\<newline>''] ?pl = Some ?pl1"
    by (simp add: u1)
  have m2: "meetingsLoop strtof_decimal
         ([''1 2 1.0 30.0\<newline>''] @ ''1 2 3.0 1.0\<newline>'' # [''1 3 1.0 15.0\<newline>'']) ?pl = Some ?pl3"
    by (simp add: u1 u2 u3)
  have v: "fmul (Finite 1) (fdiv (fmul (Finite 1) (Finite 1)) (fmul (Finite 3) (Finite 30)))
       = Finite (11930465 / 1073741824)"
    using c2 m(2) by (simp add: crna_def MIN_DISTANCE_def MAX_TIME_def)
  have res: "\<forall>l\<in>set ([''1 2 1.0 30.0\<newline>''] @ ''1 2 3.0 1.0\<newline>'' # [''1 3 1.0 15.0\<newline>'']).
               resolvable strtof_decimal ?pl l"
    using r1 r2 r3 by simp
  have last: "\<forall>l\<in>set [''1 3 1.0 15.0\<newline>'']. \<not> infectedIs strtof_decimal 2 l"
    using n by simp
  from last_meeting_decides_probability [OF s res f2 last]
  show ?thesis using s r1 r2 r3 f2 n m1 m2 v by blast
qed

subsection \<open>C2: mergeSort gives a sorted permutation\<close>

text \<open>
  C2. For every array of Person records, every draft buffer that is at least as long, and
  each of the comparators \<open>idCompare\<close> and \<open>probCompare\<close>, \<open>mergeSort\<close> over the whole array
  leaves a permutation of the input (the same records with the same multiplicities) in
  which no record is greater than its successor under the comparator. \<open>probCompare\<close>
  rounds the difference of the two probabilities to \<open>float\<close> before it compares it with
  \<open>EPSILON\<close>: the probabilities \<open>10055776 * 2 ^ -53\<close> and \<open>8388613 * 2 ^ -56\<close> differ by
  more than \<open>EPSILON\<close> and compare equal, because their difference is rounded to
  \<open>9007199 * 2 ^ -53\<close>.
\<close>

theorem mergeSort_permutation_nondecreasing:
  assumes "cmp = idCompare \<or> cmp = probCompare"
    and "length peopleList \<le> length draftList"
  shows "mset (fst (mergeSort peopleList draftList 0 (length peopleList) 0 cmp)) = mset peopleList
         \<and> nondecreasing cmp (fst (mergeSort peopleList draftList 0 (length peopleList) 0 cmp))"
proof -
  have "weakAntisym cmp"
    using assms(1) weakAntisym_idCompare weakAntisym_probCompare by auto
  then show ?thesis
    using mergeSort_whole [OF assms(2)] by (simp add: nondecreasing_msortL)
qed

theorem mergeSort_permutation_nondecreasing_witness:
  "(idCompare = idCompare \<or> idCompare = probCompare)
   \<and> length [carol, bob, alice] \<le> length [zeroPerson, zeroPerson, zeroPerson]
   \<and> fst (mergeSort [carol, bob, alice] [zeroPerson, zeroPerson, zeroPerson] 0
             (length [carol, bob, alice]) 0 idCompare) = [alice, bob, carol]
   \<and> mset [alice, bob, carol] = mset [carol, bob, alice]
   \<and> nondecreasing idCompare [alice, bob, carol]
   \<and> (probCompare = idCompare \<or> probCompare = probCompare)
   \<and> length [alice\<lparr>probability := Finite (314243 / 281474976710656)\<rparr>, bob\<lparr>probability := Finite (8388613 / 72057594037927936)\<rparr>]
       \<le> length [zeroPerson, zeroPerson]
   \<and> val EPSILON < 314243 / 281474976710656 - 8388613 / 72057594037927936
   \<and> probCompare (alice\<lparr>probability := Finite (314243 / 281474976710656)\<rparr>)
        (bob\<lparr>probability := Finite (8388613 / 72057594037927936)\<rparr>)
       = EQUAL
   \<and> fst (mergeSort [alice\<lparr>probability := Finite (314243 / 281474976710656)\<rparr>, bob\<lparr>probability := Finite (8388613 / 72057594037927936)\<rparr>]
             [zeroPerson, zeroPerson] 0
             (length [alice\<lparr>probability := Finite (314243 / 281474976710656)\<rparr>, bob\<lparr>probability := Finite (8388613 / 72057594037927936)\<rparr>])
             0 probCompare)
       = [bob\<lparr>probability := Finite (8388613 / 72057594037927936)\<rparr>, alice\<lparr>probability := Finite (314243 / 281474976710656)\<rparr>]
   \<and> nondecreasing probCompare
        [bob\<lparr>probability := Finite (8388613 / 72057594037927936)\<rparr>, alice\<lparr>probability := Finite (314243 / 281474976710656)\<rparr>]"
proof -
  let ?a = "alice\<lparr>probability := Finite (314243 / 281474976710656)\<rparr>"
  let ?b = "bob\<lparr>probability := Finite (8388613 / 72057594037927936)\<rparr>"
  have e: "fst (mergeSort [carol, bob, alice] [zeroPerson, zeroPerson, zeroPerson] 0
             (length [carol, bob, alice]) 0 idCompare) = [alice, bob, carol]"
    by code_simp
  have g: "probCompare ?a ?b = EQUAL"
    by (simp add: probCompare_def fgreater_def EPSILON_def EQUAL_def GREATER_def SMALLER_def
          alice_def bob_def float_eval)
  have l: "length [?a, ?b] \<le> length [zeroPerson, zeroPerson]" by simp
  have x: "val EPSILON < 314243 / 281474976710656 - 8388613 / 72057594037927936"
    by (simp add: EPSILON_def)
  have "msortL probCompare [?a, ?b] = mergeL probCompare [?a] [?b]"
    by (subst msortL.simps) (simp add: msortL_short)
  then have p: "fst (mergeSort [?a, ?b] [zeroPerson, zeroPerson] 0 (length [?a, ?b]) 0 probCompare)
       = [?b, ?a]"
    unfolding mergeSort_whole [OF l] using g by (simp add: EQUAL_def)
  have i: "mset (fst (mergeSort [carol, bob, alice] [zeroPerson, zeroPerson, zeroPerson] 0
                   (length [carol, bob, alice]) 0 idCompare)) = mset [carol, bob, alice]
         \<and> nondecreasing idCompare
              (fst (mergeSort [carol, bob, alice] [zeroPerson, zeroPerson, zeroPerson] 0
                   (length [carol, bob, alice]) 0 idCompare))"
    using mergeSort_permutation_nondecreasing
            [of idCompare "[carol, bob, alice]" "[zeroPerson, zeroPerson, zeroPerson]"]
    by simp
  have q: "nondecreasing probCompare
             (fst (mergeSort [?a, ?b] [zeroPerson, zeroPerson] 0 (length [?a, ?b]) 0 probCompare))"
    using mergeSort_permutation_nondecreasing [of probCompare "[?a, ?b]" "[zeroPerson, zeroPerson]"]
    by simp
  show ?thesis using i q l g x unfolding e p by simp
qed

subsection \<open>C3: the binary search finds an identifier that is present\<close>

text \<open>
  C3. For every array sorted by identifier in ascending order (equal identifiers
  allowed) and every identifier that occurs in it, \<open>binarySearchById\<close> with the bounds 0
  and \<open>length - 1\<close> returns, and the index it returns is inside the array and holds a
  record with exactly that identifier.
\<close>

theorem binarySearchById_finds_present_id:
  assumes "sorted (map id_field peopleList)"
    and "idToFind \<in> id_field ` set peopleList"
  shows "\<exists>i. binarySearchById peopleList idToFind 0 (int (length peopleList) - 1) = Some (int i)
             \<and> i < length peopleList \<and> id_field (peopleList ! i) = idToFind"
proof -
  obtain k where k: "k < length peopleList" "id_field (peopleList ! k) = idToFind"
    using assms(2) by (auto simp: in_set_conv_nth)
  from binarySearchById_found [OF assms(1), of 0 "int (length peopleList) - 1" k idToFind]
  obtain i where "binarySearchById peopleList idToFind 0 (int (length peopleList) - 1) = Some (int i)"
    "int i \<le> int (length peopleList) - 1" "id_field (peopleList ! i) = idToFind"
    using k by auto
  then show ?thesis by (intro exI [of _ i]) simp
qed

theorem binarySearchById_finds_present_id_witness:
  "sorted (map id_field [alice, bob, carol])
   \<and> 3 \<in> id_field ` set [alice, bob, carol]
   \<and> binarySearchById [alice, bob, carol] 3 0 (int (length [alice, bob, carol]) - 1) = Some 2
   \<and> (\<exists>i. binarySearchById [alice, bob, carol] 3 0 (int (length [alice, bob, carol]) - 1)
             = Some (int i)
          \<and> i < length [alice, bob, carol] \<and> id_field ([alice, bob, carol] ! i) = 3)"
proof -
  have s: "sorted (map id_field [alice, bob, carol])" by code_simp
  have m: "3 \<in> id_field ` set [alice, bob, carol]" by (simp add: carol_def)
  have e: "binarySearchById [alice, bob, carol] 3 0 (int (length [alice, bob, carol]) - 1) = Some 2"
    by code_simp
  from binarySearchById_finds_present_id [OF s m]
  show ?thesis using s m e by blast
qed

subsection \<open>C4: one output line per person, from the last element to the first\<close>

text \<open>
  C4. \<open>writeOutput\<close> writes as many lines as the array has persons; line \<open>k\<close> is written
  for the element at index \<open>length - 1 - k\<close>, with one of the three formats and that
  person's name and identifier as arguments. When the array is sorted by probability in
  ascending order, no person is written before a person that compares greater: the
  lines go from the highest probability to the lowest.
\<close>

theorem writeOutput_one_line_per_person_in_reverse:
  "length (writeOutput peopleList) = length peopleList
   \<and> (\<forall>k<length peopleList.
         \<exists>fmt. writeOutput peopleList ! k
                  = Fprintf fmt (name (peopleList ! (length peopleList - 1 - k)))
                      (id_field (peopleList ! (length peopleList - 1 - k)))
              \<and> fmt \<in> {MEDICAL_SUPERVISION_THRESHOLD_MSG, REGULAR_QUARANTINE_MSG, CLEAN_MSG})
   \<and> (nondecreasing probCompare peopleList \<longrightarrow>
        (\<forall>k. Suc k < length peopleList \<longrightarrow>
           \<not> 0 < probCompare (peopleList ! (length peopleList - 1 - Suc k))
                   (peopleList ! (length peopleList - 1 - k))))"
proof (intro conjI allI impI)
  show "length (writeOutput peopleList) = length peopleList" by (simp add: writeOutput_eq)
next
  fix k assume k: "k < length peopleList"
  then have "writeOutput peopleList ! k = outputLine (peopleList ! (length peopleList - 1 - k))"
    by (simp add: writeOutput_eq rev_nth)
  then show "\<exists>fmt. writeOutput peopleList ! k
                  = Fprintf fmt (name (peopleList ! (length peopleList - 1 - k)))
                      (id_field (peopleList ! (length peopleList - 1 - k)))
              \<and> fmt \<in> {MEDICAL_SUPERVISION_THRESHOLD_MSG, REGULAR_QUARANTINE_MSG, CLEAN_MSG}"
    using outputLine_args [of "peopleList ! (length peopleList - 1 - k)"] by simp
next
  fix k assume n: "nondecreasing probCompare peopleList" and k: "Suc k < length peopleList"
  have "Suc (length peopleList - 1 - Suc k) = length peopleList - 1 - k" using k by simp
  then show "\<not> 0 < probCompare (peopleList ! (length peopleList - 1 - Suc k))
                   (peopleList ! (length peopleList - 1 - k))"
    using nondecreasing_nth [OF n, of "length peopleList - 1 - Suc k"] k by simp
qed

theorem writeOutput_one_line_per_person_in_reverse_witness:
  "nondecreasing probCompare
     [alice, bob\<lparr>probability := Finite (1 / 4)\<rparr>, carol\<lparr>probability := Finite 1\<rparr>]
   \<and> writeOutput [alice, bob\<lparr>probability := Finite (1 / 4)\<rparr>, carol\<lparr>probability := Finite 1\<rparr>]
       = [Fprintf MEDICAL_SUPERVISION_THRESHOLD_MSG ''Carol'' 3,
          Fprintf REGULAR_QUARANTINE_MSG ''Bob'' 2,
          Fprintf CLEAN_MSG ''Alice'' 1]
   \<and> length (writeOutput [alice, bob\<lparr>probability := Finite (1 / 4)\<rparr>, carol\<lparr>probability := Finite 1\<rparr>])
       = length [alice, bob\<lparr>probability := Finite (1 / 4)\<rparr>, carol\<lparr>probability := Finite 1\<rparr>]
   \<and> (1 :: nat) < length [alice, bob\<lparr>probability := Finite (1 / 4)\<rparr>, carol\<lparr>probability := Finite 1\<rparr>]
   \<and> (\<exists>fmt. writeOutput [alice, bob\<lparr>probability := Finite (1 / 4)\<rparr>, carol\<lparr>probability := Finite 1\<rparr>] ! 1
               = Fprintf fmt (name (bob\<lparr>probability := Finite (1 / 4)\<rparr>))
                   (id_field (bob\<lparr>probability := Finite (1 / 4)\<rparr>))
            \<and> fmt \<in> {MEDICAL_SUPERVISION_THRESHOLD_MSG, REGULAR_QUARANTINE_MSG, CLEAN_MSG})
   \<and> \<not> 0 < probCompare (bob\<lparr>probability := Finite (1 / 4)\<rparr>) (carol\<lparr>probability := Finite 1\<rparr>)"
proof -
  let ?pl = "[alice, bob\<lparr>probability := Finite (1 / 4)\<rparr>, carol\<lparr>probability := Finite 1\<rparr>]"
  have n: "nondecreasing probCompare ?pl"
    by (simp add: probCompare_def fgreater_def EPSILON_def EQUAL_def GREATER_def SMALLER_def
          alice_def bob_def carol_def float_eval)
  have w: "writeOutput ?pl
       = [Fprintf MEDICAL_SUPERVISION_THRESHOLD_MSG ''Carol'' 3,
          Fprintf REGULAR_QUARANTINE_MSG ''Bob'' 2,
          Fprintf CLEAN_MSG ''Alice'' 1]"
    by (simp add: writeOutput_def outputLine_def fgeq_def EPSILON_def
          MEDICAL_SUPERVISION_THRESHOLD_value REGULAR_QUARANTINE_THRESHOLD_value
          alice_def bob_def carol_def float_eval)
  have t: "length (writeOutput ?pl) = length ?pl"
      "\<forall>k<length ?pl.
         \<exists>fmt. writeOutput ?pl ! k
                  = Fprintf fmt (name (?pl ! (length ?pl - 1 - k))) (id_field (?pl ! (length ?pl - 1 - k)))
              \<and> fmt \<in> {MEDICAL_SUPERVISION_THRESHOLD_MSG, REGULAR_QUARANTINE_MSG, CLEAN_MSG}"
      "nondecreasing probCompare ?pl \<longrightarrow>
        (\<forall>k. Suc k < length ?pl \<longrightarrow>
           \<not> 0 < probCompare (?pl ! (length ?pl - 1 - Suc k)) (?pl ! (length ?pl - 1 - k)))"
    using writeOutput_one_line_per_person_in_reverse [of ?pl] by blast+
  have "\<not> 0 < probCompare (?pl ! (length ?pl - 1 - Suc 0)) (?pl ! (length ?pl - 1 - 0))"
    using t(3) n by simp
  then have c: "\<not> 0 < probCompare (bob\<lparr>probability := Finite (1 / 4)\<rparr>) (carol\<lparr>probability := Finite 1\<rparr>)"
    by simp
  have l: "(1 :: nat) < length ?pl" by simp
  have "\<exists>fmt. writeOutput ?pl ! 1
                  = Fprintf fmt (name (?pl ! (length ?pl - 1 - 1))) (id_field (?pl ! (length ?pl - 1 - 1)))
              \<and> fmt \<in> {MEDICAL_SUPERVISION_THRESHOLD_MSG, REGULAR_QUARANTINE_MSG, CLEAN_MSG}"
    using t(2) l by blast
  then have b: "\<exists>fmt. writeOutput ?pl ! 1
               = Fprintf fmt (name (bob\<lparr>probability := Finite (1 / 4)\<rparr>))
                   (id_field (bob\<lparr>probability := Finite (1 / 4)\<rparr>))
            \<and> fmt \<in> {MEDICAL_SUPERVISION_THRESHOLD_MSG, REGULAR_QUARANTINE_MSG, CLEAN_MSG}"
    by simp
  show ?thesis using n w t(1) l b c by blast
qed

subsection \<open>C5: the three tiers\<close>

text \<open>
  C5. For every probability that is a value of the type \<open>float\<close>, the format \<open>writeOutput\<close>
  uses for the person is the hospitalization message when the probability is at least
  0.3 or less than \<open>1e-9\<close> away from it; otherwise the quarantine message when the
  probability is at least 0.1 or less than \<open>1e-9\<close> away from it; otherwise the message
  for no serious risk. The code compares with \<open>0.3f\<close> and \<open>0.1f\<close> and rounds the
  differences; no \<open>float\<close> lies between \<open>0.3\<close> and \<open>0.3f\<close> or between \<open>0.1\<close> and \<open>0.1f\<close>,
  and the \<open>float\<close> next to a threshold is further than \<open>1e-9\<close> away from it, so the
  outcome is that of the decimal numbers. A positive infinity is in the first tier, a
  negative zero, a negative infinity and a NaN are in the last. The three messages
  differ, so a person of the first tier is never reported as quarantine. Every
  probability the program stores is a value of the type \<open>float\<close>: \<open>fillPerson\<close> stores 0,
  and \<open>readMeetingsFile\<close> stores 1 and products rounded to \<open>float\<close>
  (\<open>readMeetingsFile_isFloat32\<close>).
\<close>

theorem outputLine_tiers:
  assumes "isFloat32 (probability p)"
  shows "formatOf (outputLine p) =
     (case probability p of
        Finite r \<Rightarrow>
          if 3 / 10 \<le> r \<or> \<bar>r - 3 / 10\<bar> < 1 / 10 ^ 9 then MEDICAL_SUPERVISION_THRESHOLD_MSG
          else if 1 / 10 \<le> r \<or> \<bar>r - 1 / 10\<bar> < 1 / 10 ^ 9 then REGULAR_QUARANTINE_MSG
          else CLEAN_MSG
      | NegZero \<Rightarrow> CLEAN_MSG
      | PosInf \<Rightarrow> MEDICAL_SUPERVISION_THRESHOLD_MSG
      | NegInf \<Rightarrow> CLEAN_MSG
      | NaN \<Rightarrow> CLEAN_MSG)
   \<and> MEDICAL_SUPERVISION_THRESHOLD_MSG \<noteq> REGULAR_QUARANTINE_MSG
   \<and> MEDICAL_SUPERVISION_THRESHOLD_MSG \<noteq> CLEAN_MSG
   \<and> REGULAR_QUARANTINE_MSG \<noteq> CLEAN_MSG"
proof -
  have "formatOf (outputLine p) =
     (case probability p of
        Finite r \<Rightarrow>
          if 3 / 10 \<le> r \<or> \<bar>r - 3 / 10\<bar> < 1 / 10 ^ 9 then MEDICAL_SUPERVISION_THRESHOLD_MSG
          else if 1 / 10 \<le> r \<or> \<bar>r - 1 / 10\<bar> < 1 / 10 ^ 9 then REGULAR_QUARANTINE_MSG
          else CLEAN_MSG
      | NegZero \<Rightarrow> CLEAN_MSG
      | PosInf \<Rightarrow> MEDICAL_SUPERVISION_THRESHOLD_MSG
      | NegInf \<Rightarrow> CLEAN_MSG
      | NaN \<Rightarrow> CLEAN_MSG)"
  proof (cases "probability p")
    case (Finite r)
    then have f: "isFloat32 (Finite r)" using assms by simp
    define A where "A = (3 / 10 \<le> r \<or> \<bar>r - 3 / 10\<bar> < 1 / 10 ^ 9)"
    define B where "B = (1 / 10 \<le> r \<or> \<bar>r - 1 / 10\<bar> < 1 / 10 ^ 9)"
    have a: "(fgeq (Finite r) MEDICAL_SUPERVISION_THRESHOLD
           \<or> fless (fabsf (fsub (Finite r) MEDICAL_SUPERVISION_THRESHOLD)) EPSILON) = A"
      unfolding A_def by (rule tier_medical [OF f])
    have b: "(fgeq (Finite r) REGULAR_QUARANTINE_THRESHOLD
           \<or> fless (fabsf (fsub (Finite r) REGULAR_QUARANTINE_THRESHOLD)) EPSILON) = B"
      unfolding B_def by (rule tier_quarantine [OF f])
    have "formatOf (outputLine p) =
        (if A then MEDICAL_SUPERVISION_THRESHOLD_MSG
         else if B then REGULAR_QUARANTINE_MSG else CLEAN_MSG)"
      unfolding outputLine_def Finite a b by (cases A; cases B; simp add: formatOf_def)
    then show ?thesis unfolding Finite A_def B_def by (simp only: cfloat.case)
  next
    case NegZero
    then show ?thesis by (simp add: outputLine_def formatOf_def tier_special)
  next
    case PosInf
    then show ?thesis
      by (simp add: outputLine_def formatOf_def fgeq_def MEDICAL_SUPERVISION_THRESHOLD_value)
  next
    case NegInf
    then show ?thesis
      by (simp add: outputLine_def formatOf_def fgeq_def fsub_def isInf_def EPSILON_def
            MEDICAL_SUPERVISION_THRESHOLD_value REGULAR_QUARANTINE_THRESHOLD_value)
  next
    case NaN
    then show ?thesis
      by (simp add: outputLine_def formatOf_def fgeq_def fsub_def)
  qed
  moreover have "MEDICAL_SUPERVISION_THRESHOLD_MSG \<noteq> REGULAR_QUARANTINE_MSG"
    "MEDICAL_SUPERVISION_THRESHOLD_MSG \<noteq> CLEAN_MSG" "REGULAR_QUARANTINE_MSG \<noteq> CLEAN_MSG"
    by (simp_all add: MEDICAL_SUPERVISION_THRESHOLD_MSG_def REGULAR_QUARANTINE_MSG_def CLEAN_MSG_def)
  ultimately show ?thesis by simp
qed

theorem outputLine_tiers_witness:
  "isFloat32 (Finite (5033165 / 16777216))
   \<and> MEDICAL_SUPERVISION_THRESHOLD = Finite (5033165 / 16777216)
   \<and> formatOf (outputLine (bob\<lparr>probability := Finite (5033165 / 16777216)\<rparr>))
       = MEDICAL_SUPERVISION_THRESHOLD_MSG
   \<and> isFloat32 (Finite (10066329 / 33554432))
   \<and> formatOf (outputLine (bob\<lparr>probability := Finite (10066329 / 33554432)\<rparr>))
       = REGULAR_QUARANTINE_MSG
   \<and> isFloat32 (Finite (13421773 / 134217728))
   \<and> REGULAR_QUARANTINE_THRESHOLD = Finite (13421773 / 134217728)
   \<and> formatOf (outputLine (bob\<lparr>probability := Finite (13421773 / 134217728)\<rparr>))
       = REGULAR_QUARANTINE_MSG
   \<and> isFloat32 (Finite (3355443 / 33554432))
   \<and> formatOf (outputLine (bob\<lparr>probability := Finite (3355443 / 33554432)\<rparr>)) = CLEAN_MSG
   \<and> isFloat32 PosInf
   \<and> formatOf (outputLine (bob\<lparr>probability := PosInf\<rparr>)) = MEDICAL_SUPERVISION_THRESHOLD_MSG"
proof -
  have i: "isFloat32 (Finite (5033165 / 16777216))" "isFloat32 (Finite (10066329 / 33554432))"
    "isFloat32 (Finite (13421773 / 134217728))" "isFloat32 (Finite (3355443 / 33554432))"
    "isFloat32 PosInf"
    by (simp_all add: isFloat32_def float_eval)
  have t: "MEDICAL_SUPERVISION_THRESHOLD = Finite (5033165 / 16777216)"
    "REGULAR_QUARANTINE_THRESHOLD = Finite (13421773 / 134217728)"
    by (simp_all add: MEDICAL_SUPERVISION_THRESHOLD_value REGULAR_QUARANTINE_THRESHOLD_value)
  have a: "formatOf (outputLine (bob\<lparr>probability := Finite (5033165 / 16777216)\<rparr>))
       = MEDICAL_SUPERVISION_THRESHOLD_MSG"
    using outputLine_tiers [of "bob\<lparr>probability := Finite (5033165 / 16777216)\<rparr>"] i(1)
    by simp
  have b: "formatOf (outputLine (bob\<lparr>probability := Finite (10066329 / 33554432)\<rparr>))
       = REGULAR_QUARANTINE_MSG"
    using outputLine_tiers [of "bob\<lparr>probability := Finite (10066329 / 33554432)\<rparr>"] i(2)
    by simp
  have c: "formatOf (outputLine (bob\<lparr>probability := Finite (13421773 / 134217728)\<rparr>))
       = REGULAR_QUARANTINE_MSG"
    using outputLine_tiers [of "bob\<lparr>probability := Finite (13421773 / 134217728)\<rparr>"] i(3)
    by simp
  have d: "formatOf (outputLine (bob\<lparr>probability := Finite (3355443 / 33554432)\<rparr>)) = CLEAN_MSG"
    using outputLine_tiers [of "bob\<lparr>probability := Finite (3355443 / 33554432)\<rparr>"] i(4)
    by simp
  have e: "formatOf (outputLine (bob\<lparr>probability := PosInf\<rparr>)) = MEDICAL_SUPERVISION_THRESHOLD_MSG"
    using outputLine_tiers [of "bob\<lparr>probability := PosInf\<rparr>"] i(5)
    by simp
  show ?thesis using a b c d e i t by blast
qed

subsection \<open>C6: a malformed line of the people file\<close>

text \<open>
  C6 does not hold as it is stated. The line \<open>Bob abc 40\<close> has an identifier that is not a number;
  \<open>strtol\<close> gives 0 for it, \<open>fillPerson\<close> returns \<open>SUCCESS\<close> and \<open>readPeopleFile\<close> stores Bob
  with the identifier 0.
\<close>

theorem fillPerson_defaults_non_numeric_id:
  "fillPerson alwaysOk strtof_decimal ''Bob abc 40\<newline>''
     = SUCCESS \<lparr>name = ''Bob'', id_field = 0, age = Finite 40, probability = Finite 0\<rparr>
   \<and> readPeopleFile libcOk strtof_decimal [''Bob abc 40\<newline>'']
     = Returns [\<lparr>name = ''Bob'', id_field = 0, age = Finite 40, probability = Finite 0\<rparr>]"
proof -
  have f: "fillPerson alwaysOk strtof_decimal ''Bob abc 40\<newline>''
     = SUCCESS \<lparr>name = ''Bob'', id_field = 0, age = Finite 40, probability = Finite 0\<rparr>"
    by (simp add: fillPerson_def alwaysOk_def parse_eval float_eval)
  then have "readPeopleLoop libcOk strtof_decimal [''Bob abc 40\<newline>''] [] ALLOC_SIZE
     = Returns [\<lparr>name = ''Bob'', id_field = 0, age = Finite 40, probability = Finite 0\<rparr>]"
    by (simp add: libcOk_def ALLOC_SIZE_def)
  then show ?thesis using f by (simp add: readPeopleFile_def libcOk_def)
qed

text \<open>
  C6, amended. For every line with at least three fields, \<open>fillPerson\<close> returns \<open>FAILURE\<close>
  only when the memory for the name cannot be allocated; otherwise it returns \<open>SUCCESS\<close>
  with the person: the identifier is what \<open>strtol\<close> gives for the second field, which is
  0 when the field does not start with a number, and the age is what \<open>strtof\<close> gives for
  the third. On such a line the loop of \<open>readPeopleFile\<close> exits only when the memory for
  the name cannot be allocated or when the array is full and \<open>realloc\<close> cannot make it
  larger; otherwise it stores the person and goes on with the next line. The two
  branches that are undefined, a store outside the array and an overflow of the
  capacity, do not occur in \<open>readPeopleFile\<close> on fewer than \<open>2 ^ 30\<close> such lines
  (\<open>readPeopleFile_defined\<close>).
\<close>

theorem fillPerson_fails_only_on_allocation:
  assumes "strtok line = Some (temp, rest1)"
    and "strtok rest1 = Some (idToken, rest2)"
    and "strtok rest2 = Some (ageToken, rest3)"
  shows "fillPerson calloc_ok strtof line
           = (if calloc_ok (length temp + 1)
              then SUCCESS \<lparr>name = temp,
                            id_field = (if takeWhile isdigit (afterSign idToken) = [] then 0
                                        else word_of_int (strtol idToken)),
                            age = strtof ageToken,
                            probability = Finite 0\<rparr>
              else FAILURE)
         \<and> readPeopleLoop env strtof (line # rest) peopleList capacity
           = (if \<not> nameCalloc env (length peopleList) (length temp + 1) then ExitFailure
              else if capacity \<le> length peopleList then Undefined
              else if length peopleList + 1 \<noteq> capacity
              then readPeopleLoop env strtof rest
                     (peopleList @
                      [\<lparr>name = temp,
                        id_field = (if takeWhile isdigit (afterSign idToken) = [] then 0
                                    else word_of_int (strtol idToken)),
                        age = strtof ageToken,
                        probability = Finite 0\<rparr>])
                     capacity
              else if INT_MAX < capacity * ALLOC_SIZE then Undefined
              else if \<not> arrayRealloc env (sizeofPerson * (capacity * ALLOC_SIZE)) then ExitFailure
              else readPeopleLoop env strtof rest
                     (peopleList @
                      [\<lparr>name = temp,
                        id_field = (if takeWhile isdigit (afterSign idToken) = [] then 0
                                    else word_of_int (strtol idToken)),
                        age = strtof ageToken,
                        probability = Finite 0\<rparr>])
                     (capacity * ALLOC_SIZE))"
proof -
  have z: "takeWhile isdigit (afterSign idToken) = [] \<Longrightarrow> strtol idToken = 0"
    by (simp add: strtol_def decimalValue_def LONG_MAX_def LONG_MIN_def)
  have f: "fillPerson c strtof line
           = (if c (length temp + 1)
              then SUCCESS \<lparr>name = temp,
                            id_field = (if takeWhile isdigit (afterSign idToken) = [] then 0
                                        else word_of_int (strtol idToken)),
                            age = strtof ageToken,
                            probability = Finite 0\<rparr>
              else FAILURE)" for c
    using assms z by (simp add: fillPerson_def)
  show ?thesis
    unfolding readPeopleLoop.simps f by (simp add: allocateMore_def)
qed

theorem fillPerson_fails_only_on_allocation_witness:
  "strtok ''Carol x3 seventy\<newline>'' = Some (''Carol'', ''x3 seventy\<newline>'')
   \<and> strtok ''x3 seventy\<newline>'' = Some (''x3'', ''seventy\<newline>'')
   \<and> strtok ''seventy\<newline>'' = Some (''seventy\<newline>'', [])
   \<and> fillPerson alwaysOk strtof_decimal ''Carol x3 seventy\<newline>''
       = SUCCESS \<lparr>name = ''Carol'', id_field = 0, age = Finite 0, probability = Finite 0\<rparr>
   \<and> fillPerson neverOk strtof_decimal ''Carol x3 seventy\<newline>'' = FAILURE
   \<and> readPeopleLoop libcOk strtof_decimal [''Carol x3 seventy\<newline>''] [] 2
       = Returns [\<lparr>name = ''Carol'', id_field = 0, age = Finite 0, probability = Finite 0\<rparr>]
   \<and> readPeopleLoop libcOk strtof_decimal [''Carol x3 seventy\<newline>''] [alice] 2
       = Returns [alice, \<lparr>name = ''Carol'', id_field = 0, age = Finite 0, probability = Finite 0\<rparr>]
   \<and> readPeopleLoop (libcOk\<lparr>arrayRealloc := neverOk\<rparr>) strtof_decimal
        [''Carol x3 seventy\<newline>''] [alice] 2
       = ExitFailure
   \<and> readPeopleLoop (libcOk\<lparr>nameCalloc := (\<lambda>i. neverOk)\<rparr>) strtof_decimal
        [''Carol x3 seventy\<newline>''] [alice] 2
       = ExitFailure"
proof -
  have t1: "strtok ''Carol x3 seventy\<newline>'' = Some (''Carol'', ''x3 seventy\<newline>'')" by code_simp
  have t2: "strtok ''x3 seventy\<newline>'' = Some (''x3'', ''seventy\<newline>'')" by code_simp
  have t3: "strtok ''seventy\<newline>'' = Some (''seventy\<newline>'', [])" by code_simp
  have d: "takeWhile isdigit (afterSign ''x3'') = []" by code_simp
  have a: "strtof_decimal ''seventy\<newline>'' = Finite 0" by (simp add: parse_eval)
  note w = fillPerson_fails_only_on_allocation [OF t1 t2 t3, where strtof = strtof_decimal
             and rest = "[]" and capacity = 2]
  show ?thesis
    using w [where calloc_ok = alwaysOk and env = libcOk and peopleList = "[]"]
      w [where calloc_ok = neverOk and env = libcOk and peopleList = "[alice]"]
      w [where calloc_ok = neverOk and env = "libcOk\<lparr>arrayRealloc := neverOk\<rparr>"
           and peopleList = "[alice]"]
      w [where calloc_ok = neverOk and env = "libcOk\<lparr>nameCalloc := (\<lambda>i. neverOk)\<rparr>"
           and peopleList = "[alice]"]
      t1 t2 t3 d a
    by (simp add: alwaysOk_def neverOk_def libcOk_def ALLOC_SIZE_def INT_MAX_def)
qed

subsection \<open>C7: a meeting with distance zero\<close>

text \<open>
  C7 does not hold as it is stated. Alice is sick and meets Bob at distance 0 for 30 seconds:
  \<open>readMeetingsFile\<close> returns normally, and Bob's probability is the positive infinity
  that \<open>30 / 0\<close> gives. Nothing is reported.
\<close>

theorem zero_distance_stores_infinity:
  "readMeetingsFile strtof_decimal [''1\<newline>'', ''1 2 0 30\<newline>''] [alice, bob]
     = Some [alice\<lparr>probability := Finite 1\<rparr>, bob\<lparr>probability := PosInf\<rparr>]"
proof -
  let ?pl = "[alice\<lparr>probability := Finite 1\<rparr>, bob]"
  have o: "binarySearchById [alice, bob] (word_of_int (strtol ''1\<newline>'')) 0
             (int (length [alice, bob]) - 1) = Some 0"
    by code_simp
  have f: "meetingFields strtof_decimal ''1 2 0 30\<newline>'' = Some (1, 2, Finite 0, Finite 30)"
    by (simp add: meetingFields_def parse_eval float_eval)
  have b: "binarySearchById ?pl 1 0 (int (length ?pl) - 1) = Some 0"
    "binarySearchById ?pl 2 0 (int (length ?pl) - 1) = Some 1"
    by code_simp+
  have c: "fmul (Finite 1) (crna (Finite 0) (Finite 30)) = PosInf"
    by (simp add: crna_def MIN_DISTANCE_def MAX_TIME_def float_eval)
  have u: "probUpdater strtof_decimal ?pl ''1 2 0 30\<newline>''
             = Some [alice\<lparr>probability := Finite 1\<rparr>, bob\<lparr>probability := PosInf\<rparr>]"
    unfolding probUpdater_step [OF f b] by (simp add: setProbability_def c)
  show ?thesis
    unfolding readMeetingsFile_step [OF o] by (simp add: setProbability_def u)
qed

text \<open>
  C7, amended. \<open>probUpdater\<close> has no error to raise: for every line with four fields whose
  identifiers are in the array sorted by identifier, whatever the distance and the time
  are, it returns with the probability of the infected person set to the probability of
  the infector times \<open>(time * 1.0) / (distance * 30.0)\<close>, where the two products, the
  quotient and the last product are each rounded to \<open>float\<close> as the code computes them.
  When the distance is zero this value is an infinity or a NaN.
\<close>

theorem probUpdater_never_reports_zero_distance:
  assumes "sorted (map id_field peopleList)"
    and "resolvable strtof peopleList line"
    and "meetingFields strtof line = Some (infectorId, infectedId, distance, time)"
  shows "\<exists>i j. binarySearchById peopleList infectorId 0 (int (length peopleList) - 1) = Some (int i)
         \<and> binarySearchById peopleList infectedId 0 (int (length peopleList) - 1) = Some (int j)
         \<and> i < length peopleList \<and> j < length peopleList
         \<and> probUpdater strtof peopleList line
             = Some (peopleList[j := (peopleList ! j)
                  \<lparr>probability := fmul (probability (peopleList ! i))
                     (fdiv (fmul time (Finite 1)) (fmul distance (Finite 30)))\<rparr>])
         \<and> (isZero distance \<longrightarrow>
              fmul (probability (peopleList ! i))
                (fdiv (fmul time (Finite 1)) (fmul distance (Finite 30))) \<in> {PosInf, NegInf, NaN})"
proof -
  from probUpdater_resolved [OF assms(1,2)] assms(3)
  obtain i j where
    "binarySearchById peopleList infectorId 0 (int (length peopleList) - 1) = Some (int i)"
    "binarySearchById peopleList infectedId 0 (int (length peopleList) - 1) = Some (int j)"
    "i < length peopleList" "j < length peopleList"
    "probUpdater strtof peopleList line
       = Some (setProbability peopleList (int j)
           (fmul (probability (peopleList ! i)) (crna distance time)))"
    by auto
  then show ?thesis
    using zero_distance_not_finite [of distance "probability (peopleList ! i)" time]
    by (intro exI [of _ i] exI [of _ j])
       (simp add: setProbability_def crna_def MIN_DISTANCE_def MAX_TIME_def)
qed

theorem probUpdater_never_reports_zero_distance_witness:
  "sorted (map id_field [alice\<lparr>probability := Finite 1\<rparr>, bob])
   \<and> resolvable strtof_decimal [alice\<lparr>probability := Finite 1\<rparr>, bob] ''1 2 -0 30\<newline>''
   \<and> meetingFields strtof_decimal ''1 2 -0 30\<newline>'' = Some (1, 2, NegZero, Finite 30)
   \<and> isZero NegZero
   \<and> probUpdater strtof_decimal [alice\<lparr>probability := Finite 1\<rparr>, bob] ''1 2 -0 30\<newline>''
       = Some [alice\<lparr>probability := Finite 1\<rparr>, bob\<lparr>probability := NegInf\<rparr>]
   \<and> (\<exists>i j. binarySearchById [alice\<lparr>probability := Finite 1\<rparr>, bob] 1 0
                (int (length [alice\<lparr>probability := Finite 1\<rparr>, bob]) - 1) = Some (int i)
         \<and> binarySearchById [alice\<lparr>probability := Finite 1\<rparr>, bob] 2 0
                (int (length [alice\<lparr>probability := Finite 1\<rparr>, bob]) - 1) = Some (int j)
         \<and> fmul (probability ([alice\<lparr>probability := Finite 1\<rparr>, bob] ! i))
                (fdiv (fmul (Finite 30) (Finite 1)) (fmul NegZero (Finite 30)))
             \<in> {PosInf, NegInf, NaN})"
proof -
  let ?pl = "[alice\<lparr>probability := Finite 1\<rparr>, bob]"
  have s: "sorted (map id_field ?pl)" by (simp add: alice_def bob_def)
  have f: "meetingFields strtof_decimal ''1 2 -0 30\<newline>'' = Some (1, 2, NegZero, Finite 30)"
    by (simp add: meetingFields_def parse_eval float_eval)
  have r: "resolvable strtof_decimal ?pl ''1 2 -0 30\<newline>''"
    by (simp add: resolvable_def f alice_def bob_def)
  have z: "isZero NegZero" by (simp add: isZero_def)
  have b: "binarySearchById ?pl 1 0 (int (length ?pl) - 1) = Some 0"
    "binarySearchById ?pl 2 0 (int (length ?pl) - 1) = Some 1"
    by code_simp+
  have c: "fmul (Finite 1) (crna NegZero (Finite 30)) = NegInf"
    by (simp add: crna_def MIN_DISTANCE_def MAX_TIME_def float_eval)
  have p: "probUpdater strtof_decimal ?pl ''1 2 -0 30\<newline>''
       = Some [alice\<lparr>probability := Finite 1\<rparr>, bob\<lparr>probability := NegInf\<rparr>]"
    unfolding probUpdater_step [OF f b] by (simp add: setProbability_def c)
  from probUpdater_never_reports_zero_distance [OF s r f]
  show ?thesis using s r f z p by blast
qed

subsection \<open>C8: sorting a sorted array again\<close>

text \<open>
  C8 does not hold as it is stated. Alice and Bob both have probability 0, so the array
  \<open>[alice, bob]\<close> is sorted under \<open>probCompare\<close>; \<open>merge\<close> takes from the first half only
  when the comparator is negative, so on the tie it takes Bob first and \<open>mergeSort\<close>
  leaves \<open>[bob, alice]\<close>.
\<close>

theorem mergeSort_swaps_equal_keys:
  "nondecreasing probCompare [alice, bob]
   \<and> fst (mergeSort [alice, bob] [zeroPerson, zeroPerson] 0 (length [alice, bob]) 0 probCompare)
       = [bob, alice]
   \<and> [bob, alice] \<noteq> [alice, bob]"
proof -
  have "nondecreasing probCompare [alice, bob]" by code_simp
  moreover have "fst (mergeSort [alice, bob] [zeroPerson, zeroPerson] 0 (length [alice, bob]) 0
                   probCompare) = [bob, alice]"
    by code_simp
  moreover have "[bob, alice] \<noteq> [alice, bob]" by (simp add: alice_def bob_def)
  ultimately show ?thesis by simp
qed

text \<open>
  C8, amended. When every record of the array compares smaller (a negative result) than
  every record behind it, \<open>mergeSort\<close> with that comparator and a draft buffer that is
  at least as long leaves the array as it is. This holds for every comparator, so for
  \<open>idCompare\<close> and \<open>probCompare\<close>.
\<close>

theorem mergeSort_strictly_sorted_unchanged:
  assumes "sorted_wrt (\<lambda>x y. cmp x y < 0) peopleList"
    and "length peopleList \<le> length draftList"
  shows "fst (mergeSort peopleList draftList 0 (length peopleList) 0 cmp) = peopleList"
  using mergeSort_whole [OF assms(2)] msortL_strict [OF assms(1)] by simp

theorem mergeSort_strictly_sorted_unchanged_witness:
  "sorted_wrt (\<lambda>x y. idCompare x y < 0) [alice, bob, carol]
   \<and> length [alice, bob, carol] \<le> length [zeroPerson, zeroPerson, zeroPerson]
   \<and> fst (mergeSort [alice, bob, carol] [zeroPerson, zeroPerson, zeroPerson] 0
             (length [alice, bob, carol]) 0 idCompare) = [alice, bob, carol]"
proof -
  have s: "sorted_wrt (\<lambda>x y. idCompare x y < 0) [alice, bob, carol]"
    by code_simp
  have l: "length [alice, bob, carol] \<le> length [zeroPerson, zeroPerson, zeroPerson]" by simp
  show ?thesis
    using mergeSort_strictly_sorted_unchanged [OF s l] s l by blast
qed

subsection \<open>C9: idCompare\<close>

text \<open>
  C9 does not hold of the code. The difference of the two identifiers is cut to 32 bits: for the
  identifiers \<open>2147483648\<close> and 0 the result is negative although the first identifier is
  the greater one, and for \<open>4294967296\<close> and 0 it is zero although they differ.
\<close>

theorem idCompare_truncates:
  "idCompare (alice\<lparr>id_field := 2147483648\<rparr>) (bob\<lparr>id_field := 0\<rparr>) = - 2147483648
   \<and> id_field (bob\<lparr>id_field := 0\<rparr>) < id_field (alice\<lparr>id_field := 2147483648\<rparr>)
   \<and> idCompare (alice\<lparr>id_field := 4294967296\<rparr>) (bob\<lparr>id_field := 0\<rparr>) = 0
   \<and> id_field (alice\<lparr>id_field := 4294967296\<rparr>) \<noteq> id_field (bob\<lparr>id_field := 0\<rparr>)"
  by (simp add: idCompare_def)

subsection \<open>C10: the origin person is not protected\<close>

text \<open>
  C10. There is a meetings file after which the origin person's probability is not 1:
  Alice is the origin, she meets Bob (distance 1, 15 seconds), and then Bob meets her
  the same way. The second meeting is applied like any other and overwrites the 1 of
  the origin with \<open>0.5 * 0.5\<close>.
\<close>

theorem origin_probability_is_overwritten:
  "readMeetingsFile strtof_decimal
     [''1\<newline>'', ''1 2 1.0 15.0\<newline>'', ''2 1 1.0 15.0\<newline>''] [alice, bob]
     = Some [alice\<lparr>probability := Finite (1 / 4)\<rparr>, bob\<lparr>probability := Finite (1 / 2)\<rparr>]
   \<and> binarySearchById [alice, bob] (word_of_int (strtol ''1\<newline>'')) 0 (int (length [alice, bob]) - 1)
     = Some 0
   \<and> probability ([alice\<lparr>probability := Finite (1 / 4)\<rparr>, bob\<lparr>probability := Finite (1 / 2)\<rparr>] ! 0)
     \<noteq> Finite 1
   \<and> Finite (1 / 4)
     = fmul (Finite (1 / 2)) (fdiv (fmul (Finite 15) (Finite 1)) (fmul (Finite 1) (Finite 30)))"
proof -
  let ?pl = "[alice\<lparr>probability := Finite 1\<rparr>, bob]"
  let ?pl1 = "[alice\<lparr>probability := Finite 1\<rparr>, bob\<lparr>probability := Finite (1 / 2)\<rparr>]"
  have o: "binarySearchById [alice, bob] (word_of_int (strtol ''1\<newline>'')) 0
      (int (length [alice, bob]) - 1) = Some 0"
    by code_simp
  have f1: "meetingFields strtof_decimal ''1 2 1.0 15.0\<newline>'' = Some (1, 2, Finite 1, Finite 15)"
    and f2: "meetingFields strtof_decimal ''2 1 1.0 15.0\<newline>'' = Some (2, 1, Finite 1, Finite 15)"
    by (simp_all add: meetingFields_def parse_eval float_eval)
  have b: "binarySearchById ?pl 1 0 (int (length ?pl) - 1) = Some 0"
    "binarySearchById ?pl 2 0 (int (length ?pl) - 1) = Some 1"
    "binarySearchById ?pl1 2 0 (int (length ?pl1) - 1) = Some 1"
    "binarySearchById ?pl1 1 0 (int (length ?pl1) - 1) = Some 0"
    by code_simp+
  have c: "crna (Finite 1) (Finite 15) = Finite (1 / 2)"
    by (simp add: crna_def MIN_DISTANCE_def MAX_TIME_def float_eval)
  have m: "fmul (Finite 1) (Finite (1 / 2)) = Finite (1 / 2)"
    "fmul (Finite (1 / 2)) (Finite (1 / 2)) = Finite (1 / 4)"
    by (simp_all add: float_eval)
  have u1: "probUpdater strtof_decimal ?pl ''1 2 1.0 15.0\<newline>'' = Some ?pl1"
    unfolding probUpdater_step [OF f1 b(1) b(2)] by (simp add: setProbability_def c m)
  have u2: "probUpdater strtof_decimal ?pl1 ''2 1 1.0 15.0\<newline>''
              = Some [alice\<lparr>probability := Finite (1 / 4)\<rparr>, bob\<lparr>probability := Finite (1 / 2)\<rparr>]"
    unfolding probUpdater_step [OF f2 b(3) b(4)] by (simp add: setProbability_def c m)
  have "readMeetingsFile strtof_decimal
     [''1\<newline>'', ''1 2 1.0 15.0\<newline>'', ''2 1 1.0 15.0\<newline>''] [alice, bob]
     = Some [alice\<lparr>probability := Finite (1 / 4)\<rparr>, bob\<lparr>probability := Finite (1 / 2)\<rparr>]"
    unfolding readMeetingsFile_step [OF o] by (simp add: setProbability_def u1 u2)
  moreover have "probability ([alice\<lparr>probability := Finite (1 / 4)\<rparr>,
      bob\<lparr>probability := Finite (1 / 2)\<rparr>] ! 0) \<noteq> Finite 1"
    by simp
  moreover have "Finite (1 / 4)
     = fmul (Finite (1 / 2)) (fdiv (fmul (Finite 15) (Finite 1)) (fmul (Finite 1) (Finite 30)))"
    using c m(2) by (simp add: crna_def MIN_DISTANCE_def MAX_TIME_def)
  ultimately show ?thesis using o by blast
qed

end
